theory Spec2Isabelle
  imports Complex_Main "HOL-Library.Word"
begin

unbundle bit_operations_syntax

section \<open>Python values, errors and the builtins used by \<open>vlbi_base/utils.py\<close>\<close>

text \<open>
  The utilities accept either a single integer or a NumPy integer array, and probe
  the type at run time. A value is therefore a scalar or an array; an array is the
  list of its elements in order (the loops treat an array of more dimensions as
  its flattening). Python integers are unbounded. Array elements are modelled as
  mathematical integers as well: NumPy's element-wise \<open>divmod\<close> is floor division,
  as \<open>div\<close> and \<open>mod\<close> on \<open>int\<close> are, and the sums and products of the digit
  loops are exact as long as they fit the array's dtype. The decoder's results
  never exceed its input; for the encoder the round-trip theorem states the bound
  \<open>bcd_pack n < 16 ^ k\<close> for numbers of \<open>k\<close> decimal digits, under which every
  intermediate value fits \<open>4 * k\<close> bits.
\<close>

datatype pyval = Scalar int | Array "int list"

text \<open>
  \<open>ValueError_literal\<close> is the \<open>ValueError\<close> of Python's \<open>int()\<close> on a string that
  is no number; \<open>ValueError_BCD v\<close> is the \<open>ValueError("invalid BCD encoded value
  ...")\<close> of \<open>bcd_decode\<close>, carrying the value the message is formatted with.
\<close>

datatype error = ValueError_literal | ValueError_BCD int

definition digit_char :: "nat \<Rightarrow> char" where
  "digit_char d = ''0123456789abcdef'' ! d"

definition char_digit :: "nat \<Rightarrow> char \<Rightarrow> nat option" where
  "char_digit base c =
     (case map_of (zip ''0123456789abcdef'' [0 ..< 16]) c of
        None \<Rightarrow> None
      | Some d \<Rightarrow> if d < base then Some d else None)"

text \<open>The digits of \<open>n\<close> in base \<open>b\<close>, least significant first; \<open>0\<close> has the digit 0.\<close>

function digits_of :: "nat \<Rightarrow> nat \<Rightarrow> nat list" where
  "digits_of b n = (if b < 2 \<or> n < b then [n] else n mod b # digits_of b (n div b))"
  by pat_completeness auto
termination
  by (relation "measure snd") auto

text \<open>
  \<open>'{:d}'.format(v)\<close>, \<open>'{:x}'.format(v)\<close> and \<open>'{:b}'.format(v)\<close> for an integer:
  a minus sign for a negative value, then the digits, most significant first.
\<close>

definition format_int :: "nat \<Rightarrow> int \<Rightarrow> string" where
  "format_int b v =
     (if v < 0 then CHR ''-'' # map digit_char (rev (digits_of b (nat (- v))))
      else map digit_char (rev (digits_of b (nat v))))"

definition parse_digits :: "nat \<Rightarrow> string \<Rightarrow> error + int" where
  "parse_digits b s =
     (if s = [] \<or> list_ex (\<lambda>c. char_digit b c = None) s then Inl ValueError_literal
      else Inr (int (foldl (\<lambda>acc c. acc * b + the (char_digit b c)) 0 s)))"

text \<open>
  \<open>int(s, base=b)\<close> on the strings \<open>str.format\<close> produces here: an optional minus
  sign and lower-case digits. (Python's \<open>int\<close> also accepts white space, a plus
  sign, underscores, upper-case digits and a base prefix; no format code used in this
  module emits them.)
\<close>

definition py_int :: "nat \<Rightarrow> string \<Rightarrow> error + int" where
  "py_int b s =
     (case s of
        [] \<Rightarrow> Inl ValueError_literal
      | c # r \<Rightarrow>
          if c = CHR ''-'' then
            (case parse_digits b r of Inl e \<Rightarrow> Inl e | Inr v \<Rightarrow> Inr (- v))
          else parse_digits b s)"

section \<open>BCD encoding and decoding\<close>

text \<open>
  The array branch of \<open>bcd_decode\<close>:
  \<^verbatim>\<open>
    bcd = value; factor = 1; result = np.zeros_like(value)
    while np.any(bcd > 0):
        bcd, digit = divmod(bcd, 0x10)
        if np.any(digit > 9):
            if not np.isscalar(digit):
                value = value[digit > 9][0]
            raise ValueError("invalid BCD encoded value {0}={1}.".format(value, hex(value)))
        result += digit * factor
        factor *= 10
    return result
  \<close>
  \<open>value[digit > 9][0]\<close> is the first element of \<open>value\<close>, in array order, at whose
  index the current digit exceeds 9.
\<close>

function bcd_decode_loop :: "int list \<Rightarrow> int list \<Rightarrow> int \<Rightarrow> int list \<Rightarrow> error + pyval" where
  "bcd_decode_loop value bcd factor result =
     (if list_ex (\<lambda>b. b > 0) bcd then
        (let digit = map (\<lambda>b. b mod 16) bcd;
             bcd' = map (\<lambda>b. b div 16) bcd
         in if list_ex (\<lambda>d. d > 9) digit then
              Inl (ValueError_BCD (hd (map fst (filter (\<lambda>(v, d). d > 9) (zip value digit)))))
            else bcd_decode_loop value bcd' (factor * 10)
                   (map2 (+) result (map (\<lambda>d. d * factor) digit)))
      else Inr (Array result))"
  by pat_completeness auto

lemma sum_nat_div_le:
  fixes k :: int
  assumes "1 < k"
  shows "(\<Sum>b\<leftarrow>bs. nat (b div k)) \<le> (\<Sum>b\<leftarrow>bs. nat b)"
proof (induction bs)
  case Nil
  show ?case by simp
next
  case (Cons b bs)
  have "nat (b div k) \<le> nat b"
  proof (cases "0 < b")
    case True
    with assms have "b div k < b"
      by (simp add: int_div_less_self)
    then show ?thesis by linarith
  next
    case False
    with assms have "b div k \<le> 0"
      by (simp add: div_nonpos_pos_le0)
    then show ?thesis by linarith
  qed
  with Cons show ?case by simp
qed

lemma sum_nat_div_less:
  fixes k :: int
  assumes "1 < k" and "list_ex (\<lambda>b. b > 0) bs"
  shows "(\<Sum>b\<leftarrow>bs. nat (b div k)) < (\<Sum>b\<leftarrow>bs. nat b)"
  using assms(2)
proof (induction bs)
  case Nil
  then show ?case by simp
next
  case (Cons b bs)
  show ?case
  proof (cases "0 < b")
    case True
    with assms(1) have "b div k < b"
      by (simp add: int_div_less_self)
    with True have "nat (b div k) < nat b" by linarith
    moreover have "(\<Sum>b\<leftarrow>bs. nat (b div k)) \<le> (\<Sum>b\<leftarrow>bs. nat b)"
      by (rule sum_nat_div_le [OF assms(1)])
    ultimately have "nat (b div k) + (\<Sum>b\<leftarrow>bs. nat (b div k)) < nat b + (\<Sum>b\<leftarrow>bs. nat b)"
      by linarith
    then show ?thesis by simp
  next
    case False
    with assms(1) have "b div k \<le> 0"
      by (simp add: div_nonpos_pos_le0)
    then have "nat (b div k) = 0" by simp
    moreover from False Cons.prems have "list_ex (\<lambda>b. b > 0) bs" by simp
    ultimately show ?thesis using Cons.IH by simp
  qed
qed

termination bcd_decode_loop
  by (relation "measure (\<lambda>(value, bcd, factor, result). \<Sum>b\<leftarrow>bcd. nat b)")
     (simp_all add: sum_nat_div_less comp_def)

text \<open>
  \<^verbatim>\<open>
  def bcd_decode(value):
      try:
          return int('{:x}'.format(value))
      except ValueError:
          if not isinstance(value, np.ndarray):
              raise ValueError("invalid BCD encoded value {0}={1}.".format(value, hex(value)))
      except TypeError:
          if not isinstance(value, np.ndarray):
              raise
      ...the loop above...
  \<close>
  Formatting an array with \<open>'{:x}'\<close> raises, which sends an array to the loop; an
  integer either parses or raises the BCD error with the integer itself.
\<close>

definition bcd_decode :: "pyval \<Rightarrow> error + pyval" where
  "bcd_decode value =
     (case value of
        Scalar v \<Rightarrow>
          (case py_int 10 (format_int 16 v) of
             Inr r \<Rightarrow> Inr (Scalar r)
           | Inl e \<Rightarrow> Inl (ValueError_BCD v))
      | Array vs \<Rightarrow> bcd_decode_loop vs vs 1 (map (\<lambda>v. 0) vs))"




subsection \<open>The digit packing, as arithmetic\<close>

text \<open>
  The packing both code paths are meant to implement: the digits of \<open>n\<close> in base
  \<open>b\<close>, read again in base \<open>c\<close>. \<open>bcd_pack\<close> places decimal digits in
  hexadecimal nibbles; \<open>bcd_unpack\<close> reads nibbles as decimal digits.
  \<open>has_bad_nibble v\<close> says that some nibble of \<open>v\<close> exceeds 9, and
  \<open>bad_at k v\<close> that nibble \<open>k\<close> (counted from the least significant) does.
\<close>

function reread :: "int \<Rightarrow> int \<Rightarrow> int \<Rightarrow> int" where
  "reread b c n = (if n \<le> 0 \<or> b < 2 then 0 else n mod b + c * reread b c (n div b))"
  by pat_completeness auto
termination
  by (relation "measure (\<lambda>(b, c, n). nat n)") (auto simp: int_div_less_self)


definition bcd_unpack :: "int \<Rightarrow> int" where
  "bcd_unpack v = reread 16 10 v"

function has_bad_nibble :: "int \<Rightarrow> bool" where
  "has_bad_nibble v = (if v \<le> 0 then False else 9 < v mod 16 \<or> has_bad_nibble (v div 16))"
  by pat_completeness auto
termination
  by (relation "measure nat") auto

definition bad_at :: "nat \<Rightarrow> int \<Rightarrow> bool" where
  "bad_at k v = (9 < (v div 16 ^ k) mod 16)"



declare reread.simps [simp del] has_bad_nibble.simps [simp del]

subsection \<open>Formatting and parsing\<close>

declare digits_of.simps [simp del]

lemma digit_char_table:
  "list_all (\<lambda>d. map_of (zip ''0123456789abcdef'' [0 ..< 16]) (digit_char d) = Some d
      \<and> digit_char d \<noteq> CHR ''-'') [0 ..< 16]"
  by code_simp

lemma char_digit_digit_char:
  assumes "d < 16"
  shows "char_digit b (digit_char d) = (if d < b then Some d else None)"
proof -
  from assms have "d \<in> set [0 ..< 16]" by simp
  with digit_char_table have "map_of (zip ''0123456789abcdef'' [0 ..< 16]) (digit_char d) = Some d"
    unfolding list_all_iff by blast
  then show ?thesis by (simp add: char_digit_def)
qed

lemma digit_char_not_minus:
  assumes "d < 16"
  shows "digit_char d \<noteq> CHR ''-''"
proof -
  from assms have "d \<in> set [0 ..< 16]" by simp
  with digit_char_table show ?thesis
    unfolding list_all_iff by blast
qed

lemma digits_of_bound: "2 \<le> b \<Longrightarrow> d \<in> set (digits_of b n) \<Longrightarrow> d < b"
proof (induction b n rule: digits_of.induct)
  case (1 b n)
  then show ?case
    by (subst (asm) (2) digits_of.simps) (auto split: if_splits)
qed

lemma digits_of_nonempty: "digits_of b n \<noteq> []"
  by (subst digits_of.simps) simp

lemma foldl_digit_char:
  "\<forall>d \<in> set ds. d < 16 \<and> d < b \<Longrightarrow>
   foldl (\<lambda>acc c. acc * b + the (char_digit b c)) a (map digit_char ds) =
   foldl (\<lambda>acc d. acc * b + d) a ds"
  by (induction ds arbitrary: a) (simp_all add: char_digit_digit_char)

lemma parse_digits_ok:
  assumes "ds \<noteq> []" and "\<forall>d \<in> set ds. d < 16 \<and> d < b"
  shows "parse_digits b (map digit_char ds) = Inr (int (foldl (\<lambda>acc d. acc * b + d) 0 ds))"
  using assms
  by (simp add: parse_digits_def list_ex_iff char_digit_digit_char foldl_digit_char)

lemma parse_digits_bad:
  assumes "\<forall>d \<in> set ds. d < 16" and "\<exists>d \<in> set ds. \<not> d < b"
  shows "parse_digits b (map digit_char ds) = Inl ValueError_literal"
  using assms
  by (auto simp add: parse_digits_def list_ex_iff char_digit_digit_char)

lemma reread_digits:
  assumes "2 \<le> b"
  shows "int (foldr (\<lambda>d acc. acc * c + d) (digits_of b n) 0) = reread (int b) (int c) (int n)"
proof (induction n rule: less_induct)
  case (less n)
  show ?case
  proof (cases "n < b")
    case True
    with assms show ?thesis
      by (subst digits_of.simps, subst reread.simps, subst reread.simps)
         (simp add: zdiv_int [symmetric] zmod_int [symmetric] del: of_nat_div of_nat_mod)
  next
    case False
    with assms have "n div b < n" by simp
    from less [OF this] False assms show ?thesis
      by (subst digits_of.simps, subst reread.simps)
         (simp add: zdiv_int zmod_int algebra_simps)
  qed
qed


lemma has_bad_nibble_digits:
  "has_bad_nibble (int n) = (\<exists>d \<in> set (digits_of 16 n). \<not> d < 10)"
proof (induction n rule: less_induct)
  case (less n)
  have d: "int n div 16 = int (n div 16)" by (simp add: zdiv_int)
  have m: "(9 < int n mod 16) = (\<not> n mod 16 < 10)"
  proof -
    have "int n mod 16 = int (n mod 16)" by (simp add: zmod_int)
    then show ?thesis by linarith
  qed
  show ?case
  proof (cases "n < 16")
    case True
    then have z: "n div 16 = 0" by simp
    have "\<not> has_bad_nibble 0" by (subst has_bad_nibble.simps) simp
    with True z show ?thesis
      by (subst digits_of.simps, subst has_bad_nibble.simps) (simp only: d m, auto)
  next
    case False
    then have "n div 16 < n" by simp
    from less [OF this] False show ?thesis
      by (subst digits_of.simps, subst has_bad_nibble.simps) (simp only: d m, auto)
  qed
qed


lemma foldl_rev_value:
  "foldl (\<lambda>acc d. acc * c + d) (0::nat) (rev ds) = foldr (\<lambda>d acc. acc * c + d) ds 0"
  by (simp add: foldl_conv_foldr)

lemma format_parse:
  assumes "0 \<le> v" and "2 \<le> b" and "b \<le> 16"
  shows "py_int c (format_int b v) =
     (if \<exists>d \<in> set (digits_of b (nat v)). \<not> d < c then Inl ValueError_literal
      else Inr (reread (int b) (int c) v))"
proof -
  let ?ds = "rev (digits_of b (nat v))"
  have ne: "?ds \<noteq> []" by (simp add: digits_of_nonempty)
  have lt: "\<forall>d \<in> set ?ds. d < 16"
    using digits_of_bound [of b _ "nat v"] assms by fastforce
  from ne obtain d0 ds' where ds: "?ds = d0 # ds'" by (cases ?ds) auto
  with lt have "digit_char d0 \<noteq> CHR ''-''" by (simp add: digit_char_not_minus)
  with assms ds have py: "py_int c (format_int b v) = parse_digits c (map digit_char ?ds)"
    by (simp add: py_int_def format_int_def)
  show ?thesis
  proof (cases "\<exists>d \<in> set (digits_of b (nat v)). \<not> d < c")
    case True
    with lt have "parse_digits c (map digit_char ?ds) = Inl ValueError_literal"
      by (intro parse_digits_bad) auto
    with True py show ?thesis by simp
  next
    case False
    with lt ne have "parse_digits c (map digit_char ?ds) =
        Inr (int (foldl (\<lambda>acc d. acc * c + d) 0 ?ds))"
      by (intro parse_digits_ok) auto
    also have "int (foldl (\<lambda>acc d. acc * c + d) 0 ?ds) = reread (int b) (int c) (int (nat v))"
      using reread_digits [OF assms(2), of c "nat v"] by (simp only: foldl_rev_value)
    finally show ?thesis using False py assms(1) by simp
  qed
qed


lemma scalar_decode:
  assumes "0 \<le> v"
  shows "py_int 10 (format_int 16 v) =
     (if has_bad_nibble v then Inl ValueError_literal else Inr (bcd_unpack v))"
  using format_parse [OF assms, of 16 10] has_bad_nibble_digits [of "nat v"] assms
  by (simp add: bcd_unpack_def)


lemma bcd_unpack_rec: "0 \<le> v \<Longrightarrow> bcd_unpack v = v mod 16 + 10 * bcd_unpack (v div 16)"
  unfolding bcd_unpack_def
  by (subst reread.simps, cases "v = 0") (simp_all add: reread.simps [of _ _ 0])



lemma bcd_unpack_0: "bcd_unpack 0 = 0"
  by (simp add: bcd_unpack_def reread.simps)

lemma has_bad_nibble_rec:
  "0 \<le> v \<Longrightarrow> has_bad_nibble v = (9 < v mod 16 \<or> has_bad_nibble (v div 16))"
  by (subst has_bad_nibble.simps, cases "v = 0") (simp_all add: has_bad_nibble.simps [of 0])




subsection \<open>The array loops\<close>





lemma bad_at_Suc: "bad_at (Suc k) v = bad_at k (v div 16)"
  by (simp add: bad_at_def zdiv_zmult2_eq)

lemma has_bad_nibble_iff: "0 \<le> v \<Longrightarrow> has_bad_nibble v = (\<exists>k. bad_at k v)"
proof (induction "nat v" arbitrary: v rule: less_induct)
  case less
  show ?case
  proof (cases "v = 0")
    case True
    then show ?thesis by (simp add: has_bad_nibble.simps [of 0] bad_at_def)
  next
    case False
    with less.prems have "nat (v div 16) < nat v" "0 \<le> v div 16"
      by (simp_all add: int_div_less_self)
    then have ih: "has_bad_nibble (v div 16) = (\<exists>k. bad_at k (v div 16))"
      using less.hyps by blast
    have "(\<exists>k. bad_at k v) = (bad_at 0 v \<or> (\<exists>k. bad_at (Suc k) v))"
      by (metis not0_implies_Suc)
    also have "\<dots> = (9 < v mod 16 \<or> has_bad_nibble (v div 16))"
      by (simp add: ih bad_at_Suc) (simp add: bad_at_def)
    finally show ?thesis
      using has_bad_nibble_rec [OF less.prems] by simp
  qed
qed

lemma hd_filter_zip:
  assumes "length xs = length ds" and "list_ex P ds"
  shows "\<exists>i < length ds. P (ds ! i) \<and> (\<forall>j < i. \<not> P (ds ! j)) \<and>
     hd (map fst (filter (\<lambda>(v, d). P d) (zip xs ds))) = xs ! i"
  using assms
proof (induction xs ds rule: list_induct2)
  case Nil
  then show ?case by simp
next
  case (Cons x xs d ds)
  show ?case
  proof (cases "P d")
    case True
    then have "P ((d # ds) ! 0) \<and> (\<forall>j < 0. \<not> P ((d # ds) ! j)) \<and>
        hd (map fst (filter (\<lambda>(v, d). P d) (zip (x # xs) (d # ds)))) = (x # xs) ! 0"
      by simp
    then show ?thesis by blast
  next
    case False
    with Cons.prems have "list_ex P ds" by simp
    with Cons.IH obtain i where i: "i < length ds" "P (ds ! i)" "\<forall>j < i. \<not> P (ds ! j)"
      "hd (map fst (filter (\<lambda>(v, d). P d) (zip xs ds))) = xs ! i"
      by blast
    have "\<forall>j < Suc i. \<not> P ((d # ds) ! j)"
      using False i(3) by (auto simp: less_Suc_eq_0_disj)
    with i False have "Suc i < length (d # ds) \<and> P ((d # ds) ! Suc i) \<and>
        (\<forall>j < Suc i. \<not> P ((d # ds) ! j)) \<and>
        hd (map fst (filter (\<lambda>(v, d). P d) (zip (x # xs) (d # ds)))) = (x # xs) ! Suc i"
      by simp
    then show ?thesis by blast
  qed
qed

lemma decode_loop_ok:
  assumes "\<forall>b \<in> set bcd. 0 \<le> b \<and> \<not> has_bad_nibble b" and "length res = length bcd"
  shows "bcd_decode_loop value bcd f res = Inr (Array (map2 (\<lambda>b r. r + f * bcd_unpack b) bcd res))"
  using assms
proof (induction "value" bcd f res rule: bcd_decode_loop.induct)
  case (1 "value" bcd f res)
  show ?case
  proof (cases "list_ex (\<lambda>b. b > 0) bcd")
    case False
    with "1.prems" have "\<forall>b \<in> set bcd. b = 0"
      by (fastforce simp: list_ex_iff)
    then have "\<forall>i < length bcd. bcd ! i = 0"
      by (simp add: all_set_conv_all_nth)
    then have "map2 (\<lambda>b r. r + f * bcd_unpack b) bcd res = res"
      using "1.prems"(2)
      by (intro nth_equalityI) (simp_all add: bcd_unpack_0)
    with False show ?thesis
      by (subst bcd_decode_loop.simps) simp
  next
    case True
    let ?digit = "map (\<lambda>b. b mod 16) bcd"
    let ?bcd' = "map (\<lambda>b. b div 16) bcd"
    let ?res' = "map2 (+) res (map (\<lambda>d. d * f) ?digit)"
    have rec: "\<forall>b \<in> set bcd. has_bad_nibble b = (9 < b mod 16 \<or> has_bad_nibble (b div 16))"
      using "1.prems"(1) has_bad_nibble_rec by blast
    with "1.prems"(1) have nodigit: "\<not> list_ex (\<lambda>d. d > 9) ?digit"
      by (auto simp: list_ex_iff)
    have nn: "\<forall>b \<in> set ?bcd'. 0 \<le> b \<and> \<not> has_bad_nibble b"
      using "1.prems"(1) rec by (auto simp: pos_imp_zdiv_nonneg_iff)
    have len: "length ?res' = length ?bcd'"
      using "1.prems"(2) by simp
    have "bcd_decode_loop value bcd f res = bcd_decode_loop value ?bcd' (f * 10) ?res'"
      using True nodigit by (subst bcd_decode_loop.simps) (simp add: Let_def)
    also have "\<dots> = Inr (Array (map2 (\<lambda>b r. r + f * 10 * bcd_unpack b) ?bcd' ?res'))"
      using nn len by (intro "1.IH" [OF True refl refl nodigit]) simp_all
    also have "map2 (\<lambda>b r. r + f * 10 * bcd_unpack b) ?bcd' ?res' =
        map2 (\<lambda>b r. r + f * bcd_unpack b) bcd res"
    proof (intro nth_equalityI)
      show "length (map2 (\<lambda>b r. r + f * 10 * bcd_unpack b) ?bcd' ?res') =
          length (map2 (\<lambda>b r. r + f * bcd_unpack b) bcd res)"
        using "1.prems"(2) by simp
    next
      fix i
      assume "i < length (map2 (\<lambda>b r. r + f * 10 * bcd_unpack b) ?bcd' ?res')"
      then have i: "i < length bcd" by simp
      with "1.prems"(1) have "0 \<le> bcd ! i" by simp
      then have "bcd_unpack (bcd ! i) = bcd ! i mod 16 + 10 * bcd_unpack (bcd ! i div 16)"
        by (rule bcd_unpack_rec)
      with i "1.prems"(2) show "map2 (\<lambda>b r. r + f * 10 * bcd_unpack b) ?bcd' ?res' ! i =
          map2 (\<lambda>b r. r + f * bcd_unpack b) bcd res ! i"
        by (simp add: algebra_simps)
    qed
    finally show ?thesis .
  qed
qed


lemma decode_loop_err:
  assumes "\<forall>b \<in> set bcd. 0 \<le> b" and "\<exists>b \<in> set bcd. has_bad_nibble b"
    and "length value = length bcd"
  shows "\<exists>k i. i < length bcd \<and> bad_at k (bcd ! i) \<and> (\<forall>j < i. \<not> bad_at k (bcd ! j)) \<and>
     (\<forall>m < k. \<forall>b \<in> set bcd. \<not> bad_at m b) \<and>
     bcd_decode_loop value bcd f res = Inl (ValueError_BCD (value ! i))"
  using assms
proof (induction "value" bcd f res rule: bcd_decode_loop.induct)
  case (1 "value" bcd f res)
  let ?digit = "map (\<lambda>b. b mod 16) bcd"
  let ?bcd' = "map (\<lambda>b. b div 16) bcd"
  let ?res' = "map2 (+) res (map (\<lambda>d. d * f) ?digit)"
  from "1.prems"(2) obtain b0 where b0: "b0 \<in> set bcd" "has_bad_nibble b0" by blast
  then have "0 < b0" by (subst (asm) has_bad_nibble.simps) (simp split: if_splits)
  with b0 have pos: "list_ex (\<lambda>b. b > 0) bcd" by (auto simp: list_ex_iff)
  show ?case
  proof (cases "list_ex (\<lambda>d. d > 9) ?digit")
    case True
    from hd_filter_zip [of "value" ?digit "\<lambda>d. d > 9", OF _ True] "1.prems"(3)
    obtain i where i: "i < length bcd" "9 < ?digit ! i" "\<forall>j < i. \<not> 9 < ?digit ! j"
      "hd (map fst (filter (\<lambda>(v, d). d > 9) (zip value ?digit))) = value ! i"
      by auto
    have "bcd_decode_loop value bcd f res = Inl (ValueError_BCD (value ! i))"
      using pos True i(4) by (subst bcd_decode_loop.simps) (simp add: Let_def)
    moreover have "bad_at 0 (bcd ! i)" using i(1,2) by (simp add: bad_at_def)
    moreover have "\<forall>j < i. \<not> bad_at 0 (bcd ! j)" using i(1,3) by (simp add: bad_at_def)
    ultimately have "i < length bcd \<and> bad_at 0 (bcd ! i) \<and> (\<forall>j < i. \<not> bad_at 0 (bcd ! j)) \<and>
        (\<forall>m < 0. \<forall>b \<in> set bcd. \<not> bad_at m b) \<and>
        bcd_decode_loop value bcd f res = Inl (ValueError_BCD (value ! i))"
      using i(1) by simp
    then show ?thesis by blast
  next
    case False
    have nn: "\<forall>b \<in> set ?bcd'. 0 \<le> b"
      using "1.prems"(1) by (auto simp: pos_imp_zdiv_nonneg_iff)
    from False b0 have "\<not> 9 < b0 mod 16" by (auto simp: list_ex_iff)
    with b0 "1.prems"(1) have "has_bad_nibble (b0 div 16)"
      using has_bad_nibble_rec [of b0] by auto
    with b0 have bad: "\<exists>b \<in> set ?bcd'. has_bad_nibble b" by auto
    have len: "length value = length ?bcd'" using "1.prems"(3) by simp
    from "1.IH" [OF pos refl refl False nn bad len]
    obtain k i where ki: "i < length bcd" "bad_at k (?bcd' ! i)" "\<forall>j < i. \<not> bad_at k (?bcd' ! j)"
      "\<forall>m < k. \<forall>b \<in> set ?bcd'. \<not> bad_at m b"
      "bcd_decode_loop value ?bcd' (f * 10) ?res' = Inl (ValueError_BCD (value ! i))"
      by auto
    have step: "bcd_decode_loop value bcd f res = bcd_decode_loop value ?bcd' (f * 10) ?res'"
      using pos False by (subst bcd_decode_loop.simps) (simp add: Let_def)
    have a: "bad_at (Suc k) (bcd ! i)" using ki(1,2) by (simp add: bad_at_Suc)
    have b: "\<forall>j < i. \<not> bad_at (Suc k) (bcd ! j)" using ki(1,3) by (simp add: bad_at_Suc)
    have c: "\<forall>m < Suc k. \<forall>b \<in> set bcd. \<not> bad_at m b"
    proof (intro allI impI ballI)
      fix m b
      assume m: "m < Suc k" and bb: "b \<in> set bcd"
      show "\<not> bad_at m b"
      proof (cases m)
        case 0
        with False bb show ?thesis by (auto simp: list_ex_iff bad_at_def)
      next
        case (Suc m')
        with m ki(4) bb show ?thesis by (auto simp: bad_at_Suc)
      qed
    qed
    from ki(1) a b c step ki(5) have "i < length bcd \<and> bad_at (Suc k) (bcd ! i) \<and>
        (\<forall>j < i. \<not> bad_at (Suc k) (bcd ! j)) \<and>
        (\<forall>m < Suc k. \<forall>b \<in> set bcd. \<not> bad_at m b) \<and>
        bcd_decode_loop value bcd f res = Inl (ValueError_BCD (value ! i))"
      by simp
    then show ?thesis by blast
  qed
qed



lemma decode_array_ok:
  assumes "\<forall>b \<in> set bs. 0 \<le> b \<and> \<not> has_bad_nibble b"
  shows "bcd_decode (Array bs) = Inr (Array (map bcd_unpack bs))"
proof -
  have "map2 (\<lambda>b r. r + 1 * bcd_unpack b) bs (map (\<lambda>v. 0) bs) = map bcd_unpack bs"
    by (intro nth_equalityI) simp_all
  with decode_loop_ok [OF assms, of "map (\<lambda>v. 0) bs" bs 1] show ?thesis
    by (simp add: bcd_decode_def)
qed

lemma decode_scalar:
  assumes "0 \<le> v"
  shows "bcd_decode (Scalar v) =
     (if has_bad_nibble v then Inl (ValueError_BCD v) else Inr (Scalar (bcd_unpack v)))"
  by (simp add: bcd_decode_def scalar_decode [OF assms])

subsection \<open>Round trip\<close>



subsection \<open>Invalid encodings\<close>

text \<open>
  Claim C5, as stated, says that the error raised for an array reports the first
  offending element. The loop inspects one nibble position of all elements at a
  time, so the element reported is the first one that is invalid at the lowest
  invalid nibble position: for \<open>[0xA0, 0x0B]\<close> the error carries \<open>0x0B\<close>,
  although \<open>0xA0\<close>, earlier in the array, is invalid as well.
\<close>

theorem bcd_decode_first_offending_counterexample:
  "bcd_decode (Array [0xA0, 0x0B]) = Inl (ValueError_BCD 0x0B) \<and>
   find has_bad_nibble [0xA0, 0x0B] = Some 0xA0"
  by (simp add: bcd_decode_def bcd_decode_loop.simps has_bad_nibble.simps)

text \<open>
  Claim C5, amended. On non-negative input \<open>bcd_decode\<close> raises exactly when some
  nibble exceeds 9. A single integer is reported as it is. For an array every
  element is validated, and the error reports the raw value of the element at the
  least index \<open>i\<close> whose nibble \<open>k\<close> exceeds 9, where \<open>k\<close> is the lowest nibble
  position at which any element of the array is invalid. Without an invalid nibble
  the result is the decoded integer, or the array of the decoded elements.
\<close>

theorem bcd_decode_errors:
  assumes "0 \<le> v" and "list_all (\<lambda>x. 0 \<le> x) xs"
  shows "bcd_decode (Scalar v) =
           (if has_bad_nibble v then Inl (ValueError_BCD v) else Inr (Scalar (bcd_unpack v))) \<and>
         (if list_ex has_bad_nibble xs then
            \<exists>k i. i < length xs \<and> bad_at k (xs ! i) \<and>
              (\<forall>j < i. \<not> bad_at k (xs ! j)) \<and>
              (\<forall>m < k. \<forall>x \<in> set xs. \<not> bad_at m x) \<and>
              bcd_decode (Array xs) = Inl (ValueError_BCD (xs ! i))
          else bcd_decode (Array xs) = Inr (Array (map bcd_unpack xs)))"
proof -
  from assms(2) have nn: "\<forall>x \<in> set xs. 0 \<le> x" by (simp add: list_all_iff)
  have scalar: "bcd_decode (Scalar v) =
      (if has_bad_nibble v then Inl (ValueError_BCD v) else Inr (Scalar (bcd_unpack v)))"
    using assms(1) by (rule decode_scalar)
  show ?thesis
  proof (cases "list_ex has_bad_nibble xs")
    case True
    then have "\<exists>x \<in> set xs. has_bad_nibble x" by (simp add: list_ex_iff)
    from decode_loop_err [OF nn this refl, of 1 "map (\<lambda>v. 0) xs"] True scalar
    show ?thesis by (simp add: bcd_decode_def)
  next
    case False
    with nn have "\<forall>b \<in> set xs. 0 \<le> b \<and> \<not> has_bad_nibble b" by (simp add: list_ex_iff)
    then have "bcd_decode (Array xs) = Inr (Array (map bcd_unpack xs))"
      by (rule decode_array_ok)
    with False scalar show ?thesis by simp
  qed
qed

theorem bcd_decode_errors_witness:
  "bcd_decode (Scalar 0x1A) = Inl (ValueError_BCD 0x1A) \<and>
   bcd_decode (Scalar 0x19) = Inr (Scalar 19) \<and>
   bcd_decode (Array [0x12, 0x99]) = Inr (Array [12, 99]) \<and>
   bcd_decode (Array [0x21, 0xA0, 0x0B]) = Inl (ValueError_BCD 0x0B)"
proof -
  have e: "has_bad_nibble 0x1A" "\<not> has_bad_nibble 0x19" "\<not> has_bad_nibble 0x12"
    "\<not> has_bad_nibble 0x99" "has_bad_nibble 0xA0" "bcd_unpack 0x19 = 19"
    "bcd_unpack 0x12 = 12" "bcd_unpack 0x99 = 99"
    by (simp_all add: has_bad_nibble.simps bcd_unpack_def reread.simps)
  from bcd_decode_errors [of "0x1A" "[0x12, 0x99]"] e
  have "bcd_decode (Scalar 0x1A) = Inl (ValueError_BCD 0x1A)"
    "bcd_decode (Array [0x12, 0x99]) = Inr (Array [12, 99])"
    by simp_all
  moreover from bcd_decode_errors [of "0x19" "[0x21, 0xA0, 0x0B]"] e
  have "bcd_decode (Scalar 0x19) = Inr (Scalar 19)"
    by simp
  moreover have "bcd_decode (Array [0x21, 0xA0, 0x0B]) = Inl (ValueError_BCD 0x0B)"
    by (simp add: bcd_decode_def bcd_decode_loop.simps)
  ultimately show ?thesis by blast
qed

subsection \<open>The shape of the encoder's result\<close>




section \<open>The CRC engine\<close>

text \<open>
  \<^verbatim>\<open>
  class CRC(object):
      def __init__(self, polynomial):
          self.polynomial = polynomial
          self.pol_bin = np.array(
              [int(bit) for bit in '{:b}'.format(polynomial)], dtype=np.int8)

      def __len__(self):
          return self.pol_bin.size - 1
  \<close>
  The list comprehension raises at the first character \<open>int\<close> rejects, which is the
  minus sign of a negative polynomial.
\<close>

record CRC =
  polynomial :: int
  pol_bin :: "int list"

fun collect :: "(error + 'a) list \<Rightarrow> error + 'a list" where
  "collect [] = Inr []"
| "collect (x # xs) =
     (case x of
        Inl e \<Rightarrow> Inl e
      | Inr v \<Rightarrow> (case collect xs of Inl e \<Rightarrow> Inl e | Inr vs \<Rightarrow> Inr (v # vs)))"

definition CRC_init :: "int \<Rightarrow> error + CRC" where
  "CRC_init p =
     (case collect (map (\<lambda>bit. py_int 10 [bit]) (format_int 2 p)) of
        Inl e \<Rightarrow> Inl e
      | Inr bits \<Rightarrow> Inr \<lparr>polynomial = p, pol_bin = bits\<rparr>)"

definition CRC_len :: "CRC \<Rightarrow> nat" where
  "CRC_len self = length (pol_bin self) - 1"

text \<open>
  The methods work on any NumPy dtype with \<open>&\<close> and \<open>^\<close>; the code only asks the
  stream for its dtype (\<open>np.zeros((len(self),), stream.dtype)\<close>,
  \<open>(-self.pol_bin).astype(stream.dtype)\<close>). A dtype is modelled by the operations
  the code uses: its zero, the cast from \<open>int8\<close>, \<open>&\<close> and \<open>^\<close>. \<open>np_bool\<close> is
  the dtype of a single bitstream; \<open>np_uint\<close> is an unsigned integer dtype of any
  width, whose elements carry one bitstream per bit. Casting to \<open>bool\<close> maps every
  non-zero value to \<open>True\<close>; casting to an unsigned integer wraps around, so that
  \<open>-1\<close> becomes the word of all ones.
\<close>

record 'a dtype =
  zero_of :: 'a
  astype :: "int \<Rightarrow> 'a"
  band :: "'a \<Rightarrow> 'a \<Rightarrow> 'a"
  bxor :: "'a \<Rightarrow> 'a \<Rightarrow> 'a"

definition np_bool :: "bool dtype" where
  "np_bool = \<lparr>zero_of = False, astype = (\<lambda>b. b \<noteq> 0), band = (\<and>), bxor = (\<noteq>)\<rparr>"

definition np_uint :: "'a::len word dtype" where
  "np_uint = \<lparr>zero_of = 0, astype = word_of_int, band = (AND), bxor = (XOR)\<rparr>"

text \<open>
  \<open>stream[i:i+len(v)] ^= v\<close>. Within the loop of \<open>_crc\<close> the slice always lies
  inside the stream (lemma \<open>crc_window_in_range\<close> below), so the slice has the
  length of \<open>v\<close>.
\<close>

definition xor_slice :: "'a dtype \<Rightarrow> 'a list \<Rightarrow> nat \<Rightarrow> 'a list \<Rightarrow> 'a list" where
  "xor_slice dt stream i v =
     take i stream @ map2 (bxor dt) (take (length v) (drop i stream)) v @
     drop (i + length v) stream"

text \<open>\<open>xs[-n:]\<close>: the last \<open>n\<close> items, but for \<open>n = 0\<close> the slice \<open>xs[-0:]\<close> is all of \<open>xs\<close>.\<close>

definition last_items :: "nat \<Rightarrow> 'a list \<Rightarrow> 'a list" where
  "last_items n xs = (if n = 0 then xs else drop (length xs - n) xs)"

text \<open>
  \<^verbatim>\<open>
      def _crc(self, stream):
          pol_bin = (-self.pol_bin).astype(stream.dtype)
          for i in range(0, len(stream) - len(self)):
              stream[i:i+pol_bin.size] ^= (pol_bin & stream[i])
          return stream[-len(self):]
  \<close>
  The range is empty when the stream is shorter than the check length.
\<close>

definition CRC_crc :: "'a dtype \<Rightarrow> CRC \<Rightarrow> 'a list \<Rightarrow> 'a list" where
  "CRC_crc dt self stream =
     (let pol_bin' = map (\<lambda>b. astype dt (- b)) (pol_bin self);
          stream' = fold (\<lambda>i s. xor_slice dt s i (map (\<lambda>m. band dt m (s ! i)) pol_bin'))
                      [0 ..< length stream - CRC_len self] stream
      in last_items (CRC_len self) stream')"

text \<open>
  \<^verbatim>\<open>
      def __call__(self, stream):
          stream = np.hstack((stream, np.zeros((len(self),), stream.dtype)))
          return self._crc(stream)

      def check(self, stream):
          return np.all(self._crc(stream.copy()) == 0)
  \<close>
\<close>

definition CRC_call :: "'a dtype \<Rightarrow> CRC \<Rightarrow> 'a list \<Rightarrow> 'a list" where
  "CRC_call dt self stream = CRC_crc dt self (stream @ replicate (CRC_len self) (zero_of dt))"

definition CRC_check :: "'a dtype \<Rightarrow> CRC \<Rightarrow> 'a list \<Rightarrow> bool" where
  "CRC_check dt self stream = list_all (\<lambda>x. x = zero_of dt) (CRC_crc dt self stream)"

subsection \<open>The division loop\<close>

text \<open>
  The algebra of \<open>&\<close> and \<open>^\<close> the proofs rest on; both dtypes satisfy it.
  \<open>crc_step\<close> is the body of the loop of \<open>_crc\<close> and \<open>crc_run dt pb n\<close> its first
  \<open>n\<close> iterations; \<open>mask_of\<close> is the local \<open>pol_bin\<close> of \<open>_crc\<close>.
\<close>

definition dtype_laws :: "'a dtype \<Rightarrow> bool" where
  "dtype_laws dt \<longleftrightarrow>
     (\<forall>x y. bxor dt x y = bxor dt y x) \<and>
     (\<forall>x y z. bxor dt (bxor dt x y) z = bxor dt x (bxor dt y z)) \<and>
     (\<forall>x. bxor dt x x = zero_of dt) \<and>
     (\<forall>x. bxor dt x (zero_of dt) = x) \<and>
     (\<forall>m x y. band dt m (bxor dt x y) = bxor dt (band dt m x) (band dt m y)) \<and>
     (\<forall>m. band dt m (zero_of dt) = zero_of dt) \<and>
     (\<forall>x. band dt (astype dt (- 1)) x = x) \<and>
     (\<forall>x. band dt (astype dt 0) x = zero_of dt)"

definition crc_step :: "'a dtype \<Rightarrow> 'a list \<Rightarrow> 'a list \<Rightarrow> nat \<Rightarrow> 'a list" where
  "crc_step dt pb s i = xor_slice dt s i (map (\<lambda>m. band dt m (s ! i)) pb)"

definition crc_run :: "'a dtype \<Rightarrow> 'a list \<Rightarrow> nat \<Rightarrow> 'a list \<Rightarrow> 'a list" where
  "crc_run dt pb n s = fold (\<lambda>i s. crc_step dt pb s i) [0 ..< n] s"

definition mask_of :: "'a dtype \<Rightarrow> CRC \<Rightarrow> 'a list" where
  "mask_of dt c = map (\<lambda>b. astype dt (- b)) (pol_bin c)"

lemma dtype_laws_bool: "dtype_laws np_bool"
  by (auto simp: dtype_laws_def np_bool_def)

lemma dtype_laws_uint: "dtype_laws (np_uint :: 'a::len word dtype)"
  by (simp add: dtype_laws_def np_uint_def ac_simps bit.conj_xor_distrib)

lemma CRC_crc_run:
  "CRC_crc dt c s = last_items (CRC_len c)
     (crc_run dt (map (\<lambda>b. astype dt (- b)) (pol_bin c)) (length s - CRC_len c) s)"
  by (simp add: CRC_crc_def crc_run_def crc_step_def)

lemma crc_window_in_range:
  "i \<in> set [0 ..< length stream - CRC_len c] \<Longrightarrow> pol_bin c \<noteq> [] \<Longrightarrow>
   i + length (pol_bin c) \<le> length stream"
  by (cases "pol_bin c") (auto simp: CRC_len_def)

lemma length_crc_step:
  "i + length pb \<le> length s \<Longrightarrow> length (crc_step dt pb s i) = length s"
  by (simp add: crc_step_def xor_slice_def)

lemma nth_crc_step:
  assumes "i + length pb \<le> length s" and "j < length s"
  shows "crc_step dt pb s i ! j =
     (if i \<le> j \<and> j < i + length pb then bxor dt (s ! j) (band dt (pb ! (j - i)) (s ! i)) else s ! j)"
proof -
  consider "j < i" | "i \<le> j" "j < i + length pb" | "i + length pb \<le> j" by linarith
  then show ?thesis
  proof cases
    case 1
    with assms show ?thesis
      by (simp add: crc_step_def xor_slice_def nth_append)
  next
    case 2
    then have "j - i < length pb" by linarith
    with 2 assms show ?thesis
      by (simp add: crc_step_def xor_slice_def nth_append)
  next
    case 3
    then have "\<not> j - i < length pb" "\<not> j < i" by linarith+
    with 3 assms show ?thesis
      by (simp add: crc_step_def xor_slice_def nth_append)
  qed
qed

lemma crc_run_0: "crc_run dt pb 0 s = s"
  by (simp add: crc_run_def)

lemma crc_run_Suc: "crc_run dt pb (Suc n) s = crc_step dt pb (crc_run dt pb n s) n"
  by (simp add: crc_run_def)

lemma length_crc_run:
  "n + length pb \<le> Suc (length s) \<Longrightarrow> length (crc_run dt pb n s) = length s"
proof (induction n)
  case 0
  show ?case by (simp add: crc_run_0)
next
  case (Suc n)
  then show ?case by (simp add: crc_run_Suc length_crc_step)
qed


lemma crc_run_prefix_zero:
  assumes "dtype_laws dt" and "pb \<noteq> []" and "pb ! 0 = astype dt (- 1)"
    and "n + length pb \<le> Suc (length s)" and "j < n"
  shows "crc_run dt pb n s ! j = zero_of dt"
  using assms(4,5)
proof (induction n)
  case 0
  then show ?case by simp
next
  case (Suc n)
  let ?s = "crc_run dt pb n s"
  have len: "length ?s = length s" using Suc.prems by (simp add: length_crc_run)
  have rng: "n + length pb \<le> length ?s" using Suc.prems len by simp
  have jl: "j < length ?s" using Suc.prems assms(2) len by (cases pb) auto
  show ?case
  proof (cases "j = n")
    case True
    have "crc_step dt pb ?s n ! n = bxor dt (?s ! n) (band dt (pb ! 0) (?s ! n))"
      using nth_crc_step [OF rng, of n dt] jl True assms(2) by simp
    also have "\<dots> = zero_of dt"
      using assms(1,3) by (simp add: dtype_laws_def)
    finally show ?thesis using True by (simp add: crc_run_Suc)
  next
    case False
    with Suc.prems have "j < n" by simp
    then have "?s ! j = zero_of dt" using Suc.IH Suc.prems by simp
    moreover have "crc_step dt pb ?s n ! j = ?s ! j"
      using nth_crc_step [OF rng jl, of dt] \<open>j < n\<close> by simp
    ultimately show ?thesis by (simp add: crc_run_Suc)
  qed
qed

lemma crc_step_zero:
  assumes "dtype_laws dt" and "i + length pb \<le> length s" and "s ! i = zero_of dt"
  shows "crc_step dt pb s i = s"
proof (intro nth_equalityI)
  show "length (crc_step dt pb s i) = length s"
    using assms(2) by (rule length_crc_step)
next
  fix j
  assume "j < length (crc_step dt pb s i)"
  then have j: "j < length s" using assms(2) by (simp add: length_crc_step)
  from assms(1) have "\<And>m x. bxor dt x (band dt m (zero_of dt)) = x"
    by (simp add: dtype_laws_def)
  with nth_crc_step [OF assms(2) j, of dt] assms(3) show "crc_step dt pb s i ! j = s ! j"
    by simp
qed

lemma crc_run_zero_prefix:
  assumes "dtype_laws dt" and "n + length pb \<le> Suc (length s)" and "pb \<noteq> []"
    and "\<forall>j < n. s ! j = zero_of dt"
  shows "crc_run dt pb n s = s"
  using assms(2,4)
proof (induction n)
  case 0
  show ?case by (simp add: crc_run_0)
next
  case (Suc n)
  then have "crc_run dt pb n s = s" by simp
  moreover have "crc_step dt pb s n = s"
    using assms(1) Suc.prems by (intro crc_step_zero) simp_all
  ultimately show ?case by (simp add: crc_run_Suc)
qed

lemma crc_step_linear:
  assumes "dtype_laws dt" and "length a = length b" and "i + length pb \<le> length a"
    and "pb \<noteq> []"
  shows "crc_step dt pb (map2 (bxor dt) a b) i =
     map2 (bxor dt) (crc_step dt pb a i) (crc_step dt pb b i)"
proof (intro nth_equalityI)
  show "length (crc_step dt pb (map2 (bxor dt) a b) i) =
      length (map2 (bxor dt) (crc_step dt pb a i) (crc_step dt pb b i))"
    using assms(2,3) by (simp add: length_crc_step)
next
  fix j
  assume "j < length (crc_step dt pb (map2 (bxor dt) a b) i)"
  then have j: "j < length a" using assms(2,3) by (simp add: length_crc_step)
  have i: "i < length a" using assms(3,4) by (cases pb) auto
  have lin: "\<And>x y m u v. bxor dt (bxor dt x y) (band dt m (bxor dt u v)) =
      bxor dt (bxor dt x (band dt m u)) (bxor dt y (band dt m v))"
    using assms(1) unfolding dtype_laws_def by metis
  have "crc_step dt pb (map2 (bxor dt) a b) i ! j =
      (if i \<le> j \<and> j < i + length pb
       then bxor dt (bxor dt (a ! j) (b ! j)) (band dt (pb ! (j - i)) (bxor dt (a ! i) (b ! i)))
       else bxor dt (a ! j) (b ! j))"
    using nth_crc_step [of i pb "map2 (bxor dt) a b" j dt] assms(2,3) i j by simp
  moreover have "map2 (bxor dt) (crc_step dt pb a i) (crc_step dt pb b i) ! j =
      bxor dt (crc_step dt pb a i ! j) (crc_step dt pb b i ! j)"
    using assms(2,3) j by (simp add: length_crc_step)
  ultimately show "crc_step dt pb (map2 (bxor dt) a b) i ! j =
      map2 (bxor dt) (crc_step dt pb a i) (crc_step dt pb b i) ! j"
    using nth_crc_step [of i pb a j dt] nth_crc_step [of i pb b j dt] assms(2,3) j
    by (simp add: lin)
qed

lemma crc_run_linear:
  assumes "dtype_laws dt" and "length a = length b" and "n + length pb \<le> Suc (length a)"
    and "pb \<noteq> []"
  shows "crc_run dt pb n (map2 (bxor dt) a b) =
     map2 (bxor dt) (crc_run dt pb n a) (crc_run dt pb n b)"
  using assms(3)
proof (induction n)
  case 0
  show ?case by (simp add: crc_run_0)
next
  case (Suc n)
  let ?a = "crc_run dt pb n a" and ?b = "crc_run dt pb n b"
  have la: "length ?a = length a" and lb: "length ?b = length b"
    using Suc.prems assms(2) by (simp_all add: length_crc_run)
  have "crc_run dt pb (Suc n) (map2 (bxor dt) a b) = crc_step dt pb (map2 (bxor dt) ?a ?b) n"
    using Suc by (simp add: crc_run_Suc)
  also have "\<dots> = map2 (bxor dt) (crc_step dt pb ?a n) (crc_step dt pb ?b n)"
    using assms(1,2,4) la lb Suc.prems by (intro crc_step_linear) simp_all
  finally show ?case by (simp add: crc_run_Suc)
qed


subsection \<open>The bits of the polynomial\<close>

text \<open>
  \<open>single_term n\<close>: the polynomial \<open>n\<close> has exactly one term, that is, \<open>n\<close> is a
  power of two (lemma \<open>single_term_iff\<close>).
\<close>

function single_term :: "nat \<Rightarrow> bool" where
  "single_term n = (if n \<le> 1 then n = 1 else even n \<and> single_term (n div 2))"
  by pat_completeness auto
termination
  by (relation "measure id") auto

declare single_term.simps [simp del]

lemma py_int_digit: "d < 10 \<Longrightarrow> py_int 10 [digit_char d] = Inr (int d)"
  using parse_digits_ok [of "[d]" 10] digit_char_not_minus [of d]
  by (simp add: py_int_def)

lemma collect_digits:
  "\<forall>d \<in> set ds. d < 10 \<Longrightarrow>
   collect (map (\<lambda>bit. py_int 10 [bit]) (map digit_char ds)) = Inr (map int ds)"
  by (induction ds) (simp_all add: py_int_digit)

lemma CRC_init_nonneg:
  assumes "0 \<le> p"
  shows "CRC_init p = Inr \<lparr>polynomial = p, pol_bin = map int (rev (digits_of 2 (nat p)))\<rparr>"
proof -
  have "\<forall>d \<in> set (rev (digits_of 2 (nat p))). d < 10"
    using digits_of_bound [of 2 _ "nat p"] by fastforce
  then have "collect (map (\<lambda>bit. py_int 10 [bit]) (map digit_char (rev (digits_of 2 (nat p))))) =
      Inr (map int (rev (digits_of 2 (nat p))))"
    by (rule collect_digits)
  with assms show ?thesis
    by (simp add: CRC_init_def format_int_def)
qed

lemma CRC_init_negative: "p < 0 \<Longrightarrow> CRC_init p = Inl ValueError_literal"
  by (simp add: CRC_init_def format_int_def py_int_def parse_digits_def)

lemma digits_of_2_last: "0 < n \<Longrightarrow> last (digits_of 2 n) = 1"
proof (induction n rule: less_induct)
  case (less n)
  show ?case
  proof (cases "n < 2")
    case True
    with less.prems have "n = 1" by simp
    then show ?thesis by (simp add: digits_of.simps)
  next
    case False
    then have "n div 2 < n" "0 < n div 2" by simp_all
    with less.IH have "last (digits_of 2 (n div 2)) = 1" by blast
    with False show ?thesis
      by (subst digits_of.simps) (simp add: digits_of_nonempty)
  qed
qed

lemma digits_of_2_low:
  assumes "0 < n" and "\<not> single_term n"
  shows "\<exists>z. Suc z < length (digits_of 2 n) \<and> digits_of 2 n ! z = 1 \<and>
     (\<forall>k < z. digits_of 2 n ! k = 0)"
  using assms
proof (induction n rule: less_induct)
  case (less n)
  from less.prems have n2: "\<not> n < 2"
    by (subst (asm) single_term.simps) (auto split: if_splits)
  then have ds: "digits_of 2 n = n mod 2 # digits_of 2 (n div 2)"
    by (subst digits_of.simps) simp
  show ?case
  proof (cases "even n")
    case False
    then have "n mod 2 = 1" by presburger
    with ds have "Suc 0 < length (digits_of 2 n) \<and> digits_of 2 n ! 0 = 1 \<and>
        (\<forall>k < 0. digits_of 2 n ! k = 0)"
      using digits_of_nonempty [of 2 "n div 2"] by (cases "digits_of 2 (n div 2)") simp_all
    then show ?thesis by blast
  next
    case True
    with less.prems(2) n2 have "\<not> single_term (n div 2)"
      by (subst (asm) single_term.simps) simp
    moreover from n2 have "n div 2 < n" "0 < n div 2" by simp_all
    ultimately obtain z where z: "Suc z < length (digits_of 2 (n div 2))"
      "digits_of 2 (n div 2) ! z = 1" "\<forall>k < z. digits_of 2 (n div 2) ! k = 0"
      using less.IH by blast
    from True have "n mod 2 = 0" by presburger
    with z ds have "Suc (Suc z) < length (digits_of 2 n) \<and> digits_of 2 n ! Suc z = 1 \<and>
        (\<forall>k < Suc z. digits_of 2 n ! k = 0)"
      by (auto simp: less_Suc_eq_0_disj)
    then show ?thesis by blast
  qed
qed

lemma single_term_iff: "single_term n = (\<exists>k. n = 2 ^ k)"
proof (induction n rule: less_induct)
  case (less n)
  show ?case
  proof (cases "n \<le> 1")
    case True
    show ?thesis
    proof (cases "n = 1")
      case True
      then have "\<exists>k. n = 2 ^ k" by (intro exI [of _ 0]) simp
      with True show ?thesis by (subst single_term.simps) simp
    next
      case False
      with \<open>n \<le> 1\<close> have "n = 0" by simp
      then show ?thesis by (subst single_term.simps) simp
    qed
  next
    case False
    then have "n div 2 < n" by simp
    with less.IH have ih: "single_term (n div 2) = (\<exists>k. n div 2 = 2 ^ k)" by blast
    have "(even n \<and> (\<exists>k. n div 2 = 2 ^ k)) = (\<exists>k. n = 2 ^ k)"
    proof
      assume "even n \<and> (\<exists>k. n div 2 = 2 ^ k)"
      then obtain k where "even n" "n div 2 = 2 ^ k" by blast
      then have "n = 2 ^ Suc k" by auto
      then show "\<exists>k. n = 2 ^ k" by blast
    next
      assume "\<exists>k. n = 2 ^ k"
      then obtain k where k: "n = 2 ^ k" by blast
      with False obtain k' where "k = Suc k'" by (cases k) auto
      with k show "even n \<and> (\<exists>k. n div 2 = 2 ^ k)" by auto
    qed
    with False ih show ?thesis by (subst single_term.simps) simp
  qed
qed


subsection \<open>A stream with a single non-zero element never divides to zero\<close>

text \<open>
  \<open>t\<close> is the offset of the lowest term of the polynomial in the mask. While the
  loop has not reached the non-zero element, the stream is unchanged; afterwards
  there is always a non-zero element at or after the loop index, and none from
  offset \<open>t\<close> beyond it.
\<close>

lemma crc_run_unit_invariant:
  assumes laws: "dtype_laws dt"
    and pb: "length pb = Suc L"
    and t: "0 < t" "t \<le> L" "pb ! t = astype dt (- 1)"
      "\<forall>u. t < u \<and> u \<le> L \<longrightarrow> pb ! u = astype dt 0"
    and E: "k < length E" "E ! k \<noteq> zero_of dt"
      "\<forall>j < length E. j \<noteq> k \<longrightarrow> E ! j = zero_of dt"
    and n: "n + L \<le> length E"
  shows "(n \<le> k \<and> crc_run dt pb n E = E) \<or>
     (k < n \<and> (\<exists>g. n \<le> g \<and> g < length E \<and> crc_run dt pb n E ! g \<noteq> zero_of dt) \<and>
      (\<forall>j < length E. n + t \<le> j \<longrightarrow> crc_run dt pb n E ! j = zero_of dt))"
  using n
proof (induction n)
  case 0
  show ?case by (simp add: crc_run_0)
next
  case (Suc n)
  let ?S = "crc_run dt pb n E"
  let ?z = "zero_of dt"
  have len: "length ?S = length E"
    using Suc.prems pb by (simp add: length_crc_run)
  have rng: "n + length pb \<le> length ?S"
    using Suc.prems pb len by simp
  have zl: "\<And>x. bxor dt ?z x = x"
    using laws unfolding dtype_laws_def by metis
  have zr: "\<And>x. bxor dt x ?z = x"
    using laws unfolding dtype_laws_def by metis
  have ones: "\<And>x. band dt (astype dt (- 1)) x = x"
    using laws unfolding dtype_laws_def by metis
  have nulls: "\<And>x. band dt (astype dt 0) x = ?z"
    using laws unfolding dtype_laws_def by metis
  have nth: "\<And>j. j < length E \<Longrightarrow> crc_step dt pb ?S n ! j =
      (if n \<le> j \<and> j < n + Suc L then bxor dt (?S ! j) (band dt (pb ! (j - n)) (?S ! n)) else ?S ! j)"
    using nth_crc_step [OF rng, of _ dt] len pb by simp
  have nt: "n + t < length E" using t(2) Suc.prems by simp
  have at_t: "crc_step dt pb ?S n ! (n + t) = bxor dt (?S ! (n + t)) (?S ! n)"
    using nth [OF nt] t(1,2,3) by (simp add: ones)
  have beyond: "crc_step dt pb ?S n ! j = ?S ! j"
    if "j < length E" "Suc n + t \<le> j" for j
  proof (cases "j < n + Suc L")
    case True
    with that have "t < j - n \<and> j - n \<le> L" by linarith
    with t(4) have "pb ! (j - n) = astype dt 0" by blast
    with nth [OF that(1)] show ?thesis by (simp add: nulls zr)
  next
    case False
    with nth [OF that(1)] show ?thesis by simp
  qed
  from Suc.IH Suc.prems consider
    (before) "n \<le> k" "?S = E"
    | (after) g where "k < n" "n \<le> g" "g < length E" "?S ! g \<noteq> ?z"
        "\<forall>j < length E. n + t \<le> j \<longrightarrow> ?S ! j = ?z"
    by auto
  then show ?case
  proof cases
    case before
    show ?thesis
    proof (cases "n = k")
      case False
      with before have "n < k" by simp
      with E(3) Suc.prems have "E ! n = ?z" by simp
      with before rng have "crc_step dt pb ?S n = E"
        by (simp add: crc_step_zero [OF laws])
      with \<open>n < k\<close> show ?thesis by (simp add: crc_run_Suc)
    next
      case True
      have "E ! (k + t) = ?z" using E(3) nt t(1) True by simp
      with at_t before True have "crc_step dt pb ?S n ! (k + t) = E ! k"
        by (simp add: zl)
      with E(2) have g: "crc_step dt pb ?S n ! (k + t) \<noteq> ?z" by simp
      have "\<forall>j < length E. Suc n + t \<le> j \<longrightarrow> crc_step dt pb ?S n ! j = ?z"
        using beyond before True E(3) by simp
      with g nt True t(1) show ?thesis
        by (auto simp: crc_run_Suc intro!: exI [of _ "k + t"])
    qed
  next
    case after
    show ?thesis
    proof (cases "?S ! n = ?z")
      case True
      with rng have same: "crc_step dt pb ?S n = ?S"
        by (simp add: crc_step_zero [OF laws])
      from after True have "g \<noteq> n" by auto
      with after have "Suc n \<le> g" by simp
      with after same show ?thesis
        by (auto simp: crc_run_Suc)
    next
      case False
      from after(5) nt have "?S ! (n + t) = ?z" by simp
      with at_t False have g: "crc_step dt pb ?S n ! (n + t) \<noteq> ?z"
        by (simp add: zl)
      have "\<forall>j < length E. Suc n + t \<le> j \<longrightarrow> crc_step dt pb ?S n ! j = ?z"
        using beyond after(5) by simp
      with g nt after(1) t(1) show ?thesis
        by (auto simp: crc_run_Suc intro!: exI [of _ "n + t"])
    qed
  qed
qed

lemma crc_run_unit_nonzero:
  assumes "dtype_laws dt" and "length pb = Suc L"
    and "0 < t" "t \<le> L" "pb ! t = astype dt (- 1)"
      "\<forall>u. t < u \<and> u \<le> L \<longrightarrow> pb ! u = astype dt 0"
    and "k < length E" "E ! k \<noteq> zero_of dt"
      "\<forall>j < length E. j \<noteq> k \<longrightarrow> E ! j = zero_of dt"
    and "n + L \<le> length E"
  shows "\<exists>g. n \<le> g \<and> g < length E \<and> crc_run dt pb n E ! g \<noteq> zero_of dt"
  using crc_run_unit_invariant [OF assms] assms(7,8) by auto


subsection \<open>Streams that end in their CRC\<close>

lemma crc_run_valid:
  assumes laws: "dtype_laws dt" and pb: "length pb = Suc L" "pb ! 0 = astype dt (- 1)"
    and r: "r = drop (length m) (crc_run dt pb (length m) (m @ replicate L (zero_of dt)))"
  shows "crc_run dt pb (length m) (m @ r) = replicate (length m + L) (zero_of dt)"
proof -
  let ?z = "zero_of dt" and ?n = "length m"
  let ?R = "crc_run dt pb ?n (m @ replicate L ?z)"
  have ne: "pb \<noteq> []" using pb(1) by auto
  have lenR: "length ?R = ?n + L"
    using pb(1) by (simp add: length_crc_run)
  have lenr: "length r = L" using r lenR by simp
  have Rz: "?R ! j = ?z" if "j < ?n" for j
    using crc_run_prefix_zero [OF laws ne pb(2) _ that, of "m @ replicate L ?z"] pb(1) by simp
  have R: "?R = replicate ?n ?z @ r"
  proof (intro nth_equalityI)
    show "length ?R = length (replicate ?n ?z @ r)" using lenR lenr by simp
  next
    fix j assume "j < length ?R"
    then show "?R ! j = (replicate ?n ?z @ r) ! j"
      using Rz r lenR by (cases "j < ?n") (simp_all add: nth_append)
  qed
  have zl: "\<And>x. bxor dt ?z x = x" and zr: "\<And>x. bxor dt x ?z = x"
    and xx: "\<And>x. bxor dt x x = ?z"
    using laws unfolding dtype_laws_def by metis+
  have split: "m @ r = map2 (bxor dt) (m @ replicate L ?z) (replicate ?n ?z @ r)"
    using lenr by (intro nth_equalityI) (auto simp: nth_append zl zr)
  have "crc_run dt pb ?n (replicate ?n ?z @ r) = replicate ?n ?z @ r"
    using pb(1) lenr by (intro crc_run_zero_prefix [OF laws _ ne]) (simp_all add: nth_append)
  then have "crc_run dt pb ?n (m @ r) = map2 (bxor dt) ?R (replicate ?n ?z @ r)"
    using crc_run_linear [OF laws _ _ ne, of "m @ replicate L ?z" "replicate ?n ?z @ r" ?n]
      pb(1) lenr split by simp
  also have "\<dots> = map2 (bxor dt) ?R ?R" using R by simp
  also have "\<dots> = replicate (?n + L) ?z"
    using lenR by (intro nth_equalityI) (simp_all add: xx)
  finally show ?thesis .
qed

lemma crc_run_flipped:
  assumes laws: "dtype_laws dt" and pb: "length pb = Suc L" "pb ! 0 = astype dt (- 1)"
    and t: "0 < t" "t \<le> L" "pb ! t = astype dt (- 1)"
      "\<forall>u. t < u \<and> u \<le> L \<longrightarrow> pb ! u = astype dt 0"
    and r: "r = drop (length m) (crc_run dt pb (length m) (m @ replicate L (zero_of dt)))"
    and k: "k < length m + L" and b: "b \<noteq> zero_of dt"
  shows "\<exists>g. length m \<le> g \<and> g < length m + L \<and>
     crc_run dt pb (length m) ((m @ r)[k := bxor dt ((m @ r) ! k) b]) ! g \<noteq> zero_of dt"
proof -
  let ?z = "zero_of dt" and ?n = "length m"
  let ?E = "(replicate (?n + L) ?z)[k := b]"
  have ne: "pb \<noteq> []" using pb(1) by auto
  have lenr: "length r = L"
    using r pb(1) by (simp add: length_crc_run)
  have zl: "\<And>x. bxor dt ?z x = x" and zr: "\<And>x. bxor dt x ?z = x"
    using laws unfolding dtype_laws_def by metis+
  have flip: "(m @ r)[k := bxor dt ((m @ r) ! k) b] = map2 (bxor dt) (m @ r) ?E"
    using lenr k by (intro nth_equalityI) (auto simp: nth_list_update zr)
  have "crc_run dt pb ?n (map2 (bxor dt) (m @ r) ?E) =
      map2 (bxor dt) (crc_run dt pb ?n (m @ r)) (crc_run dt pb ?n ?E)"
    using lenr pb(1) by (intro crc_run_linear [OF laws _ _ ne]) simp_all
  also have "\<dots> = map2 (bxor dt) (replicate (?n + L) ?z) (crc_run dt pb ?n ?E)"
    using crc_run_valid [OF laws pb r] by simp
  also have "\<dots> = crc_run dt pb ?n ?E"
    using pb(1) by (intro nth_equalityI) (simp_all add: length_crc_run zl)
  finally have run: "crc_run dt pb ?n ((m @ r)[k := bxor dt ((m @ r) ! k) b]) = crc_run dt pb ?n ?E"
    using flip by simp
  have "\<exists>g. ?n \<le> g \<and> g < length ?E \<and> crc_run dt pb ?n ?E ! g \<noteq> ?z"
    using k b by (intro crc_run_unit_nonzero [OF laws pb(1) t, of k]) simp_all
  with run show ?thesis by simp
qed


lemma mask_of_init:
  assumes "1 \<le> p" and "CRC_init p = Inr c"
  shows "length (mask_of dt c) = Suc (CRC_len c)" and "mask_of dt c ! 0 = astype dt (- 1)"
proof -
  let ?ds = "digits_of 2 (nat p)"
  from assms have c: "pol_bin c = map int (rev ?ds)"
    using CRC_init_nonneg [of p] by auto
  have ne: "?ds \<noteq> []" by (rule digits_of_nonempty)
  then show "length (mask_of dt c) = Suc (CRC_len c)"
    using c by (cases ?ds) (simp_all add: mask_of_def CRC_len_def)
  from assms(1) have "last ?ds = 1" by (intro digits_of_2_last) simp
  with ne have "rev ?ds ! 0 = 1" by (simp add: rev_nth last_conv_nth)
  with ne show "mask_of dt c ! 0 = astype dt (- 1)"
    using c by (simp add: mask_of_def)
qed

lemma mask_of_low_term:
  assumes "1 \<le> p" and "CRC_init p = Inr c" and "\<not> single_term (nat p)"
  shows "\<exists>t. 0 < t \<and> t \<le> CRC_len c \<and> mask_of dt c ! t = astype dt (- 1) \<and>
     (\<forall>u. t < u \<and> u \<le> CRC_len c \<longrightarrow> mask_of dt c ! u = astype dt 0)"
proof -
  let ?ds = "digits_of 2 (nat p)"
  from assms have c: "pol_bin c = map int (rev ?ds)"
    using CRC_init_nonneg [of p] by auto
  from assms(1,3) obtain z where z: "Suc z < length ?ds" "?ds ! z = 1" "\<forall>k < z. ?ds ! k = 0"
    using digits_of_2_low [of "nat p"] by auto
  have L: "CRC_len c = length ?ds - 1" using c by (simp add: CRC_len_def)
  let ?t = "length ?ds - 1 - z"
  have t0: "0 < ?t" and tL: "?t \<le> CRC_len c" using z(1) L by simp_all
  have "rev ?ds ! ?t = ?ds ! z" using z(1) by (simp add: rev_nth)
  with z(2) have one: "mask_of dt c ! ?t = astype dt (- 1)"
    using c z(1) by (simp add: mask_of_def)
  have zero: "mask_of dt c ! u = astype dt 0" if "?t < u" "u \<le> CRC_len c" for u
  proof -
    from that L z(1) have u: "u < length ?ds" "length ?ds - Suc u < z" by linarith+
    then have "rev ?ds ! u = ?ds ! (length ?ds - Suc u)" by (simp add: rev_nth)
    with u z(3) show ?thesis using c by (simp add: mask_of_def)
  qed
  from t0 tL one zero show ?thesis by blast
qed

lemma CRC_crc_mask:
  "CRC_crc dt c s = last_items (CRC_len c) (crc_run dt (mask_of dt c) (length s - CRC_len c) s)"
  by (simp add: CRC_crc_run mask_of_def)

lemma CRC_call_drop:
  assumes "0 < CRC_len c" and "length (mask_of dt c) = Suc (CRC_len c)"
  shows "CRC_call dt c m =
     drop (length m) (crc_run dt (mask_of dt c) (length m) (m @ replicate (CRC_len c) (zero_of dt)))"
  using assms by (simp add: CRC_call_def CRC_crc_mask last_items_def length_crc_run)

lemma CRC_check_valid:
  assumes laws: "dtype_laws dt" and p: "1 \<le> p" "CRC_init p = Inr c"
  shows "CRC_check dt c (m @ CRC_call dt c m)"
proof (cases "CRC_len c = 0")
  case True
  let ?s = "m @ CRC_call dt c m"
  have len: "length (mask_of dt c) = Suc 0"
    using mask_of_init(1) [OF p, of dt] True by simp
  then have ne: "mask_of dt c \<noteq> []" by auto
  have "\<forall>j < length ?s. crc_run dt (mask_of dt c) (length ?s) ?s ! j = zero_of dt"
    using crc_run_prefix_zero [OF laws ne mask_of_init(2) [OF p]] len by simp
  moreover have "length (crc_run dt (mask_of dt c) (length ?s) ?s) = length ?s"
    using len by (simp add: length_crc_run)
  ultimately show ?thesis
    using True by (simp add: CRC_check_def CRC_crc_mask last_items_def list_all_length)
next
  case False
  let ?L = "CRC_len c" and ?pb = "mask_of dt c"
  have len: "length ?pb = Suc ?L" by (rule mask_of_init(1) [OF p])
  have r: "CRC_call dt c m = drop (length m) (crc_run dt ?pb (length m) (m @ replicate ?L (zero_of dt)))"
    using False len by (intro CRC_call_drop) simp_all
  then have lenr: "length (CRC_call dt c m) = ?L"
    using len by (simp add: length_crc_run)
  have "crc_run dt ?pb (length m) (m @ CRC_call dt c m) = replicate (length m + ?L) (zero_of dt)"
    using laws len mask_of_init(2) [OF p] r by (rule crc_run_valid)
  then show ?thesis
    using False lenr by (simp add: CRC_check_def CRC_crc_mask last_items_def list_all_length)
qed

lemma CRC_check_flipped:
  assumes laws: "dtype_laws dt" and p: "1 \<le> p" "CRC_init p = Inr c"
    and nst: "\<not> single_term (nat p)"
    and k: "k < length m + CRC_len c" and b: "b \<noteq> zero_of dt"
  shows "\<not> CRC_check dt c ((m @ CRC_call dt c m)[k := bxor dt ((m @ CRC_call dt c m) ! k) b])"
proof -
  let ?L = "CRC_len c" and ?pb = "mask_of dt c"
  let ?s = "(m @ CRC_call dt c m)[k := bxor dt ((m @ CRC_call dt c m) ! k) b]"
  have len: "length ?pb = Suc ?L" by (rule mask_of_init(1) [OF p])
  from mask_of_low_term [OF p nst, of dt] obtain t where t: "0 < t" "t \<le> ?L"
    "?pb ! t = astype dt (- 1)" "\<forall>u. t < u \<and> u \<le> ?L \<longrightarrow> ?pb ! u = astype dt 0"
    by blast
  then have L: "0 < ?L" by simp
  have r: "CRC_call dt c m = drop (length m) (crc_run dt ?pb (length m) (m @ replicate ?L (zero_of dt)))"
    using L len by (intro CRC_call_drop) simp_all
  then have lenr: "length (CRC_call dt c m) = ?L"
    using len by (simp add: length_crc_run)
  from crc_run_flipped [OF laws len mask_of_init(2) [OF p] t r k b]
  obtain g where g: "length m \<le> g" "g < length m + ?L" "crc_run dt ?pb (length m) ?s ! g \<noteq> zero_of dt"
    by blast
  have lens: "length ?s = length m + ?L" using lenr by simp
  have lenrun: "length (crc_run dt ?pb (length m) ?s) = length m + ?L"
    using len lens by (simp add: length_crc_run)
  have "CRC_crc dt c ?s = drop (length m) (crc_run dt ?pb (length m) ?s)"
    using L lens lenrun by (simp add: CRC_crc_mask last_items_def)
  moreover have "drop (length m) (crc_run dt ?pb (length m) ?s) ! (g - length m) \<noteq> zero_of dt"
    using g lenrun by simp
  moreover have "g - length m < length (drop (length m) (crc_run dt ?pb (length m) ?s))"
    using g lenrun by simp
  ultimately show ?thesis
    unfolding CRC_check_def list_all_length by metis
qed

subsection \<open>Checking a stream, and single-bit errors\<close>

text \<open>
  Claim C3, as stated, holds for no polynomial with a single term. For the
  polynomial \<open>2\<close> (that is, \<open>x\<close>) the CRC of \<open>[True]\<close> is \<open>[False]\<close>, the stream
  \<open>[True, False]\<close> passes the check, and it still passes after its first bit is
  flipped.
\<close>

theorem crc_check_single_bit_counterexample:
  "CRC_init 2 = Inr \<lparr>polynomial = 2, pol_bin = [1, 0]\<rparr> \<and>
   CRC_call np_bool \<lparr>polynomial = 2, pol_bin = [1, 0]\<rparr> [True] = [False] \<and>
   CRC_check np_bool \<lparr>polynomial = 2, pol_bin = [1, 0]\<rparr> [True, False] \<and>
   CRC_check np_bool \<lparr>polynomial = 2, pol_bin = [1, 0]\<rparr> ([True, False][0 := \<not> True])"
proof -
  have "CRC_init 2 = Inr \<lparr>polynomial = 2, pol_bin = [1, 0]\<rparr>"
    using CRC_init_nonneg [of 2] by (simp add: digits_of.simps)
  moreover have "CRC_call np_bool \<lparr>polynomial = 2, pol_bin = [1, 0]\<rparr> [True] = [False]"
    by (simp add: CRC_call_def CRC_crc_def CRC_len_def np_bool_def xor_slice_def last_items_def)
  moreover have "CRC_check np_bool \<lparr>polynomial = 2, pol_bin = [1, 0]\<rparr> [True, False]"
    by (simp add: CRC_check_def CRC_crc_def CRC_len_def np_bool_def xor_slice_def last_items_def)
  moreover have "CRC_check np_bool \<lparr>polynomial = 2, pol_bin = [1, 0]\<rparr> ([True, False][0 := \<not> True])"
    by (simp add: CRC_check_def CRC_crc_def CRC_len_def np_bool_def xor_slice_def last_items_def)
  ultimately show ?thesis by blast
qed

text \<open>
  Claim C3, amended. For every polynomial \<open>p \<ge> 1\<close> and every stream \<open>m\<close>, of
  booleans or of unsigned words, the stream \<open>m\<close> followed by its CRC passes
  \<open>check\<close>. If moreover the polynomial has at least two terms (it is no power of
  two), flipping any single bit of such a stream, in the message or in the CRC,
  makes \<open>check\<close> return false: for a boolean stream the bit at any index \<open>k\<close>,
  for a word stream bit \<open>j\<close> of the word at any index \<open>k'\<close>.
\<close>

theorem crc_check_single_bit:
  fixes w :: "'a::len word list"
  assumes "CRC_init p = Inr c" and "1 \<le> p"
  shows "CRC_check np_bool c (m @ CRC_call np_bool c m) \<and>
         CRC_check np_uint c (w @ CRC_call np_uint c w) \<and>
         (\<not> single_term (nat p) \<and> k < length m + CRC_len c \<longrightarrow>
            \<not> CRC_check np_bool c
                ((m @ CRC_call np_bool c m)[k := \<not> (m @ CRC_call np_bool c m) ! k])) \<and>
         (\<not> single_term (nat p) \<and> k' < length w + CRC_len c \<and> j < LENGTH('a) \<longrightarrow>
            \<not> CRC_check np_uint c
                ((w @ CRC_call np_uint c w)[k' := (w @ CRC_call np_uint c w) ! k' XOR push_bit j 1]))"
proof (intro conjI impI)
  show "CRC_check np_bool c (m @ CRC_call np_bool c m)"
    using dtype_laws_bool assms(2,1) by (rule CRC_check_valid)
  show "CRC_check np_uint c (w @ CRC_call np_uint c w)"
    using dtype_laws_uint assms(2,1) by (rule CRC_check_valid)
next
  assume h: "\<not> single_term (nat p) \<and> k < length m + CRC_len c"
  have "True \<noteq> zero_of np_bool" by (simp add: np_bool_def)
  with h have "\<not> CRC_check np_bool c
      ((m @ CRC_call np_bool c m)[k := bxor np_bool ((m @ CRC_call np_bool c m) ! k) True])"
    using CRC_check_flipped [OF dtype_laws_bool assms(2,1), of k m True] by blast
  then show "\<not> CRC_check np_bool c
      ((m @ CRC_call np_bool c m)[k := \<not> (m @ CRC_call np_bool c m) ! k])"
    by (simp add: np_bool_def)
next
  assume h: "\<not> single_term (nat p) \<and> k' < length w + CRC_len c \<and> j < LENGTH('a)"
  then have "(push_bit j 1 :: 'a word) \<noteq> zero_of np_uint"
    by (simp add: np_uint_def)
  with h have "\<not> CRC_check np_uint c
      ((w @ CRC_call np_uint c w)[k' := bxor np_uint ((w @ CRC_call np_uint c w) ! k') (push_bit j 1)])"
    using CRC_check_flipped [OF dtype_laws_uint assms(2,1), of k' w "push_bit j 1"] by blast
  then show "\<not> CRC_check np_uint c
      ((w @ CRC_call np_uint c w)[k' := (w @ CRC_call np_uint c w) ! k' XOR push_bit j 1])"
    by (simp add: np_uint_def)
qed

theorem crc_check_single_bit_witness:
  "CRC_init 11 = Inr \<lparr>polynomial = 11, pol_bin = [1, 0, 1, 1]\<rparr> \<and>
   CRC_call np_bool \<lparr>polynomial = 11, pol_bin = [1, 0, 1, 1]\<rparr> [True, True, False] = [False, False, True] \<and>
   CRC_check np_bool \<lparr>polynomial = 11, pol_bin = [1, 0, 1, 1]\<rparr> [True, True, False, False, False, True] \<and>
   \<not> CRC_check np_bool \<lparr>polynomial = 11, pol_bin = [1, 0, 1, 1]\<rparr> [True, True, False, False, True, True] \<and>
   CRC_call np_uint \<lparr>polynomial = 11, pol_bin = [1, 0, 1, 1]\<rparr> [3, 1, 2 :: 8 word] = [2, 0, 1] \<and>
   CRC_check np_uint \<lparr>polynomial = 11, pol_bin = [1, 0, 1, 1]\<rparr> [3, 1, 2, 2, 0, 1 :: 8 word] \<and>
   \<not> CRC_check np_uint \<lparr>polynomial = 11, pol_bin = [1, 0, 1, 1]\<rparr> [3, 5, 2, 2, 0, 1 :: 8 word]"
proof -
  let ?c = "\<lparr>polynomial = 11, pol_bin = [1, 0, 1, 1]\<rparr>"
  have c: "CRC_init 11 = Inr ?c"
    using CRC_init_nonneg [of 11] by (simp add: digits_of.simps)
  have L: "CRC_len ?c = 3" by (simp add: CRC_len_def)
  have st: "\<not> single_term (nat 11)" by (simp add: single_term.simps)
  have b: "CRC_call np_bool ?c [True, True, False] = [False, False, True]"
    by code_simp
  have u: "CRC_call np_uint ?c [3, 1, 2 :: 8 word] = [2, 0, 1]"
    by code_simp
  have pb: "push_bit 2 (1 :: 8 word) = 4" by simp
  from crc_check_single_bit [OF c, of "[True, True, False]" "[3, 1, 2 :: 8 word]" 4 1 2]
  have "CRC_check np_bool ?c ([True, True, False] @ [False, False, True])"
    "CRC_check np_uint ?c ([3, 1, 2] @ [2, 0, 1 :: 8 word])"
    "\<not> CRC_check np_bool ?c (([True, True, False] @ [False, False, True])[4 := \<not> ([True, True, False] @ [False, False, True]) ! 4])"
    "\<not> CRC_check np_uint ?c (([3, 1, 2] @ [2, 0, 1 :: 8 word])[1 := ([3, 1, 2] @ [2, 0, 1 :: 8 word]) ! 1 XOR 4])"
    unfolding b u L pb using st by simp_all
  then show ?thesis
    using c b u by simp
qed

subsection \<open>Parallel bit lanes\<close>

lemma pol_bin_init:
  assumes "CRC_init p = Inr c"
  shows "0 \<le> p" and "pol_bin c = map int (rev (digits_of 2 (nat p)))"
    and "length (pol_bin c) = Suc (CRC_len c)"
proof -
  show p: "0 \<le> p"
    using assms CRC_init_negative [of p] by (cases "p < 0") simp_all
  with assms show c: "pol_bin c = map int (rev (digits_of 2 (nat p)))"
    using CRC_init_nonneg [of p] by auto
  show "length (pol_bin c) = Suc (CRC_len c)"
    using c digits_of_nonempty [of 2 "nat p"]
    by (cases "digits_of 2 (nat p)") (simp_all add: CRC_len_def)
qed

lemma mask_lane:
  assumes "CRC_init p = Inr c" and "j < LENGTH('a::len)"
  shows "map (\<lambda>w. bit w j) (mask_of np_uint c :: 'a word list) = mask_of np_bool c"
proof -
  have "bit (word_of_int (- int d) :: 'a word) j = (- int d \<noteq> 0)"
    if "d \<in> set (digits_of 2 (nat p))" for d
  proof -
    from that have "d < 2" by (intro digits_of_bound) simp_all
    then consider "d = 0" | "d = 1" by linarith
    then show ?thesis using assms(2) by cases simp_all
  qed
  then show ?thesis
    using pol_bin_init(2) [OF assms(1)]
    by (simp add: mask_of_def np_uint_def np_bool_def)
qed

lemma crc_step_lane:
  fixes s :: "'a::len word list"
  assumes "i + length pb \<le> length s" and "pb \<noteq> []"
  shows "map (\<lambda>w. bit w j) (crc_step np_uint pb s i) =
     crc_step np_bool (map (\<lambda>w. bit w j) pb) (map (\<lambda>w. bit w j) s) i"
proof (intro nth_equalityI)
  show "length (map (\<lambda>w. bit w j) (crc_step np_uint pb s i)) =
      length (crc_step np_bool (map (\<lambda>w. bit w j) pb) (map (\<lambda>w. bit w j) s) i)"
    using assms(1) by (simp add: length_crc_step)
next
  fix k
  assume "k < length (map (\<lambda>w. bit w j) (crc_step np_uint pb s i))"
  then have k: "k < length s" using assms(1) by (simp add: length_crc_step)
  have i: "i < length s" using assms by (cases pb) auto
  have "k - i < length pb" if "i \<le> k" "k < i + length pb"
    using that by linarith
  then show "map (\<lambda>w. bit w j) (crc_step np_uint pb s i) ! k =
      crc_step np_bool (map (\<lambda>w. bit w j) pb) (map (\<lambda>w. bit w j) s) i ! k"
    using nth_crc_step [OF assms(1) k, of np_uint]
      nth_crc_step [of i "map (\<lambda>w. bit w j) pb" "map (\<lambda>w. bit w j) s" k np_bool]
      assms(1) k i
    by (simp add: length_crc_step np_uint_def np_bool_def bit_xor_iff bit_and_iff)
qed

lemma crc_run_lane:
  fixes s :: "'a::len word list"
  assumes "n + length pb \<le> Suc (length s)" and "pb \<noteq> []"
  shows "map (\<lambda>w. bit w j) (crc_run np_uint pb n s) =
     crc_run np_bool (map (\<lambda>w. bit w j) pb) n (map (\<lambda>w. bit w j) s)"
  using assms(1)
proof (induction n)
  case 0
  show ?case by (simp add: crc_run_0)
next
  case (Suc n)
  then have ih: "map (\<lambda>w. bit w j) (crc_run np_uint pb n s) =
      crc_run np_bool (map (\<lambda>w. bit w j) pb) n (map (\<lambda>w. bit w j) s)"
    by simp
  have "n + length pb \<le> length (crc_run np_uint pb n s)"
    using Suc.prems by (simp add: length_crc_run)
  then have "map (\<lambda>w. bit w j) (crc_step np_uint pb (crc_run np_uint pb n s) n) =
      crc_step np_bool (map (\<lambda>w. bit w j) pb) (map (\<lambda>w. bit w j) (crc_run np_uint pb n s)) n"
    using assms(2) by (rule crc_step_lane)
  with ih show ?case by (simp add: crc_run_Suc)
qed

lemma last_items_map: "map f (last_items n xs) = last_items n (map f xs)"
  by (simp add: last_items_def drop_map)

lemma CRC_crc_lane:
  fixes s :: "'a::len word list"
  assumes "CRC_init p = Inr c" and "j < LENGTH('a)"
  shows "map (\<lambda>w. bit w j) (CRC_crc np_uint c s) = CRC_crc np_bool c (map (\<lambda>w. bit w j) s)"
proof -
  have len: "length (mask_of np_uint c :: 'a word list) = Suc (CRC_len c)"
    using pol_bin_init(3) [OF assms(1)] by (simp add: mask_of_def)
  then have ne: "(mask_of np_uint c :: 'a word list) \<noteq> []" by auto
  have "length s - CRC_len c + length (mask_of np_uint c :: 'a word list) \<le> Suc (length s)
      \<or> length s - CRC_len c = 0"
    using len by linarith
  then have "map (\<lambda>w. bit w j) (crc_run np_uint (mask_of np_uint c) (length s - CRC_len c) s) =
      crc_run np_bool (map (\<lambda>w. bit w j) (mask_of np_uint c :: 'a word list))
        (length s - CRC_len c) (map (\<lambda>w. bit w j) s)"
    using crc_run_lane [OF _ ne, of "length s - CRC_len c" s j] by (auto simp: crc_run_0)
  then show ?thesis
    using mask_lane [OF assms]
    by (simp add: CRC_crc_mask last_items_map)
qed

text \<open>
  Claim C4. For every stream of \<open>w\<close>-bit unsigned words and every bit lane
  \<open>j < w\<close>, bit \<open>j\<close> of the CRC of the word stream is the CRC of the boolean
  stream made of bit \<open>j\<close> of each word. Both sides are the same methods, run on
  the two dtypes.
\<close>

theorem crc_lanes_independent:
  fixes ws :: "'a::len word list"
  assumes "CRC_init p = Inr c" and "j < LENGTH('a)"
  shows "map (\<lambda>w. bit w j) (CRC_call np_uint c ws) =
     CRC_call np_bool c (map (\<lambda>w. bit w j) ws)"
proof -
  have "bit (zero_of np_uint :: 'a word) j = zero_of np_bool"
    by (simp add: np_uint_def np_bool_def)
  then have "map (\<lambda>w. bit w j) (ws @ replicate (CRC_len c) (zero_of np_uint)) =
      map (\<lambda>w. bit w j) ws @ replicate (CRC_len c) (zero_of np_bool)"
    by simp
  with CRC_crc_lane [OF assms, of "ws @ replicate (CRC_len c) (zero_of np_uint)"]
  show ?thesis by (simp only: CRC_call_def)
qed

theorem crc_lanes_independent_witness:
  "CRC_init 11 = Inr \<lparr>polynomial = 11, pol_bin = [1, 0, 1, 1]\<rparr> \<and>
   CRC_call np_uint \<lparr>polynomial = 11, pol_bin = [1, 0, 1, 1]\<rparr> [3, 1, 2 :: 8 word] = [2, 0, 1] \<and>
   CRC_call np_bool \<lparr>polynomial = 11, pol_bin = [1, 0, 1, 1]\<rparr> [True, False, True] =
     [True, False, False]"
proof -
  let ?c = "\<lparr>polynomial = 11, pol_bin = [1, 0, 1, 1]\<rparr>"
  have c: "CRC_init 11 = Inr ?c"
    using CRC_init_nonneg [of 11] by (simp add: digits_of.simps)
  have u: "CRC_call np_uint ?c [3, 1, 2 :: 8 word] = [2, 0, 1]"
    by code_simp
  from crc_lanes_independent [OF c, of 1 "[3, 1, 2 :: 8 word]"]
  have "CRC_call np_bool ?c [True, False, True] = [True, False, False]"
    unfolding u by simp
  with c u show ?thesis by simp
qed

subsection \<open>The CRC as polynomial long division\<close>

text \<open>
  The specification's description of the engine, on a single bit-vector:
  \<open>check_length = bitlength(polynomial) - 1\<close>; append \<open>check_length\<close> zero bits;
  at each position \<open>i\<close> from 0 to \<open>len - check_length - 1\<close>, if bit \<open>i\<close> is set,
  XOR the polynomial (most significant bit first) into the window
  \<open>[i, i + check_length]\<close>; return the final \<open>check_length\<close> bits. The polynomial
  is read through its bits as a number, not through its formatted string.
\<close>

function bit_length :: "nat \<Rightarrow> nat" where
  "bit_length n = (if n = 0 then 0 else Suc (bit_length (n div 2)))"
  by pat_completeness auto
termination
  by (relation "measure id") auto

definition check_length :: "int \<Rightarrow> int" where
  "check_length p = int (bit_length (nat \<bar>p\<bar>)) - 1"

definition xor_polynomial :: "int \<Rightarrow> bool list \<Rightarrow> nat \<Rightarrow> bool list" where
  "xor_polynomial p s i =
     (let L = nat (check_length p)
      in map (\<lambda>k. if i \<le> k \<and> k \<le> i + L then s ! k \<noteq> bit p (L - (k - i)) else s ! k)
           [0 ..< length s])"

definition long_division :: "int \<Rightarrow> bool list \<Rightarrow> bool list" where
  "long_division p bits =
     (let L = nat (check_length p);
          s = bits @ replicate L False;
          s' = fold (\<lambda>i s. if s ! i then xor_polynomial p s i else s) [0 ..< length s - L] s
      in drop (length s' - L) s')"

declare bit_length.simps [simp del]

lemma length_digits_of_2: "0 < n \<Longrightarrow> length (digits_of 2 n) = bit_length n"
proof (induction n rule: less_induct)
  case (less n)
  show ?case
  proof (cases "n < 2")
    case True
    with less.prems have "n = 1" by simp
    then show ?thesis by (simp add: digits_of.simps bit_length.simps)
  next
    case False
    then have "n div 2 < n" "0 < n div 2" by simp_all
    with less.IH have "length (digits_of 2 (n div 2)) = bit_length (n div 2)" by blast
    with False show ?thesis
      by (subst digits_of.simps, subst bit_length.simps) simp
  qed
qed

lemma nth_digits_of_2:
  "k < length (digits_of 2 n) \<Longrightarrow> digits_of 2 n ! k = (if bit n k then 1 else 0)"
proof (induction n arbitrary: k rule: less_induct)
  case (less n)
  show ?case
  proof (cases "n < 2")
    case True
    then consider "n = 0" | "n = 1" by linarith
    then show ?thesis
      using less.prems by cases (simp_all add: digits_of.simps bit_0)
  next
    case False
    then have ds: "digits_of 2 n = n mod 2 # digits_of 2 (n div 2)"
      by (subst digits_of.simps) simp
    show ?thesis
    proof (cases k)
      case 0
      with ds show ?thesis by (simp add: bit_0 mod_2_eq_odd)
    next
      case (Suc k')
      with less.prems ds have "k' < length (digits_of 2 (n div 2))" by simp
      moreover from False have "n div 2 < n" by simp
      ultimately have "digits_of 2 (n div 2) ! k' = (if bit (n div 2) k' then 1 else 0)"
        using less.IH by blast
      with ds Suc show ?thesis by (simp add: bit_Suc)
    qed
  qed
qed

lemma check_length_init:
  assumes "1 \<le> p" and "CRC_init p = Inr c"
  shows "int (CRC_len c) = check_length p"
proof -
  have "length (digits_of 2 (nat p)) = bit_length (nat p)"
    using assms(1) by (intro length_digits_of_2) simp
  with pol_bin_init(2) [OF assms(2)] assms(1) show ?thesis
    by (simp add: CRC_len_def check_length_def) (simp add: bit_length.simps [of "nat p"])
qed

lemma mask_bool_nth:
  assumes "1 \<le> p" and "CRC_init p = Inr c" and "j \<le> CRC_len c"
  shows "mask_of np_bool c ! j = bit p (CRC_len c - j)"
proof -
  let ?ds = "digits_of 2 (nat p)"
  have c: "pol_bin c = map int (rev ?ds)" by (rule pol_bin_init(2) [OF assms(2)])
  have len: "length ?ds = Suc (CRC_len c)"
    using pol_bin_init(3) [OF assms(2)] c by simp
  with assms(3) have j: "j < length ?ds" by simp
  then have "rev ?ds ! j = ?ds ! (CRC_len c - j)"
    using len by (simp add: rev_nth)
  also have "\<dots> = (if bit (nat p) (CRC_len c - j) then 1 else 0)"
    using len by (intro nth_digits_of_2) simp
  finally have "mask_of np_bool c ! j = bit (nat p) (CRC_len c - j)"
    using c j by (simp add: mask_of_def np_bool_def)
  moreover have "bit p (CRC_len c - j) = bit (nat p) (CRC_len c - j)"
    using assms(1) bit_of_nat_iff_bit [of "nat p" "CRC_len c - j", where ?'a = int] by simp
  ultimately show ?thesis by simp
qed

lemma crc_step_bool_spec:
  assumes "1 \<le> p" and "CRC_init p = Inr c" and "i + Suc (CRC_len c) \<le> length s"
  shows "crc_step np_bool (mask_of np_bool c) s i = (if s ! i then xor_polynomial p s i else s)"
proof -
  let ?pb = "mask_of np_bool c" and ?L = "CRC_len c"
  have len: "length ?pb = Suc ?L" by (rule mask_of_init(1) [OF assms(1,2)])
  have L: "nat (check_length p) = ?L"
    using check_length_init [OF assms(1,2)] by simp
  have rng: "i + length ?pb \<le> length s" using assms(3) len by simp
  show ?thesis
  proof (cases "s ! i")
    case False
    then have "s ! i = zero_of np_bool" by (simp add: np_bool_def)
    with rng show ?thesis
      using False by (simp add: crc_step_zero [OF dtype_laws_bool])
  next
    case True
    have "crc_step np_bool ?pb s i = xor_polynomial p s i"
    proof (intro nth_equalityI)
      show "length (crc_step np_bool ?pb s i) = length (xor_polynomial p s i)"
        using rng by (simp add: length_crc_step xor_polynomial_def Let_def)
    next
      fix k
      assume "k < length (crc_step np_bool ?pb s i)"
      then have k: "k < length s" using rng by (simp add: length_crc_step)
      have m: "?pb ! (k - i) = bit p (?L - (k - i))" if "i \<le> k" "k \<le> i + ?L"
        using that by (intro mask_bool_nth [OF assms(1,2)]) simp
      show "crc_step np_bool ?pb s i ! k = xor_polynomial p s i ! k"
        using nth_crc_step [OF rng k, of np_bool] True k len m
        by (auto simp: xor_polynomial_def Let_def L np_bool_def)
    qed
    with True show ?thesis by simp
  qed
qed

lemma crc_run_bool_spec:
  assumes "1 \<le> p" and "CRC_init p = Inr c" and "n + CRC_len c \<le> length s"
  shows "crc_run np_bool (mask_of np_bool c) n s =
     fold (\<lambda>i s. if s ! i then xor_polynomial p s i else s) [0 ..< n] s"
  using assms(3)
proof (induction n)
  case 0
  show ?case by (simp add: crc_run_0)
next
  case (Suc n)
  let ?S = "crc_run np_bool (mask_of np_bool c) n s"
  have "length ?S = length s"
    using Suc.prems mask_of_init(1) [OF assms(1,2), of np_bool] by (simp add: length_crc_run)
  with Suc.prems have "n + Suc (CRC_len c) \<le> length ?S" by simp
  then have "crc_step np_bool (mask_of np_bool c) ?S n =
      (if ?S ! n then xor_polynomial p ?S n else ?S)"
    by (rule crc_step_bool_spec [OF assms(1,2)])
  with Suc show ?case by (simp add: crc_run_Suc)
qed

lemma CRC_call_bool_spec:
  assumes "2 \<le> p" and "CRC_init p = Inr c"
  shows "CRC_call np_bool c bits = long_division p bits"
    and "0 < CRC_len c"
proof -
  from assms(1) have p1: "1 \<le> p" by simp
  let ?L = "CRC_len c" and ?pb = "mask_of np_bool c"
  have L: "nat (check_length p) = ?L"
    using check_length_init [OF p1 assms(2)] by simp
  have "bit_length (nat p) = Suc (bit_length (nat p div 2))"
    using assms(1) by (subst bit_length.simps) simp
  moreover have "0 < nat p div 2" using assms(1) by simp
  then have "0 < bit_length (nat p div 2)" by (subst bit_length.simps) simp
  ultimately have "1 < bit_length (nat p)" by simp
  with check_length_init [OF p1 assms(2)] assms(1) show pos: "0 < ?L"
    by (simp add: check_length_def)
  let ?s = "bits @ replicate ?L False"
  have run: "crc_run np_bool ?pb (length bits) ?s =
      fold (\<lambda>i s. if s ! i then xor_polynomial p s i else s) [0 ..< length bits] ?s"
    by (intro crc_run_bool_spec [OF p1 assms(2)]) simp
  have len: "length (crc_run np_bool ?pb (length bits) ?s) = length bits + ?L"
    using mask_of_init(1) [OF p1 assms(2), of np_bool] by (simp add: length_crc_run)
  have "CRC_call np_bool c bits = drop (length bits) (crc_run np_bool ?pb (length bits) ?s)"
    using pos len by (simp add: CRC_call_def CRC_crc_mask last_items_def np_bool_def)
  also have "\<dots> = long_division p bits"
    using len run by (simp add: long_division_def L Let_def)
  finally show "CRC_call np_bool c bits = long_division p bits" .
qed


lemma length_CRC_call:
  assumes "1 \<le> p" and "CRC_init p = Inr c" and "0 < CRC_len c"
  shows "length (CRC_call dt c m) = CRC_len c"
  using CRC_call_drop [OF assms(3) mask_of_init(1) [OF assms(1,2)], of dt m]
    mask_of_init(1) [OF assms(1,2), of dt]
  by (simp add: length_crc_run)

text \<open>
  Claim C2, as stated, fails for a polynomial of check length 0: the final slice
  \<open>stream[-len(self):]\<close> is then \<open>stream[-0:]\<close>, the whole stream. For the
  polynomial \<open>1\<close> and the stream \<open>[True]\<close> the engine returns one element, where
  the final \<open>check_length = 0\<close> bits are none.
\<close>

theorem crc_call_is_long_division_counterexample:
  "CRC_init 1 = Inr \<lparr>polynomial = 1, pol_bin = [1]\<rparr> \<and>
   check_length 1 = 0 \<and>
   CRC_call np_bool \<lparr>polynomial = 1, pol_bin = [1]\<rparr> [True] = [False] \<and>
   long_division 1 [True] = []"
proof -
  have "CRC_init 1 = Inr \<lparr>polynomial = 1, pol_bin = [1]\<rparr>"
    using CRC_init_nonneg [of 1] by (simp add: digits_of.simps)
  moreover have cl: "check_length 1 = 0"
    by (simp add: check_length_def bit_length.simps)
  moreover have "CRC_call np_bool \<lparr>polynomial = 1, pol_bin = [1]\<rparr> [True] = [False]"
    by (simp add: CRC_call_def CRC_crc_def CRC_len_def np_bool_def xor_slice_def last_items_def)
  moreover have "long_division 1 [True] = []"
    by (simp add: long_division_def cl xor_polynomial_def)
  ultimately show ?thesis by blast
qed

text \<open>
  Claim C2, amended. For a CRC engine constructed from a polynomial \<open>p \<ge> 2\<close>, the
  check length is \<open>bitlength(p) - 1\<close>, and calling the engine on a boolean stream
  returns exactly the remainder of the long division described above, of
  \<open>check_length\<close> elements; on a stream of unsigned words it returns
  \<open>check_length\<close> words of the same width, and each bit lane of the result is that
  remainder for the lane's bits.
\<close>

theorem crc_call_is_long_division:
  fixes ws :: "'a::len word list"
  assumes "CRC_init p = Inr c" and "2 \<le> p"
  shows "int (CRC_len c) = check_length p \<and>
         CRC_call np_bool c bits = long_division p bits \<and>
         length (CRC_call np_bool c bits) = CRC_len c \<and>
         length (CRC_call np_uint c ws) = CRC_len c \<and>
         (j < LENGTH('a) \<longrightarrow>
            map (\<lambda>w. bit w j) (CRC_call np_uint c ws) = long_division p (map (\<lambda>w. bit w j) ws))"
proof -
  from assms(2) have p1: "1 \<le> p" by simp
  have a: "int (CRC_len c) = check_length p"
    using p1 assms(1) by (rule check_length_init)
  have b: "CRC_call np_bool c bs = long_division p bs" for bs
    using assms(2,1) by (rule CRC_call_bool_spec(1))
  have pos: "0 < CRC_len c"
    using assms(2,1) by (rule CRC_call_bool_spec(2))
  have d: "length (CRC_call np_bool c bits) = CRC_len c"
    using p1 assms(1) pos by (rule length_CRC_call)
  have e: "length (CRC_call np_uint c ws) = CRC_len c"
    using p1 assms(1) pos by (rule length_CRC_call)
  have f: "map (\<lambda>w. bit w j) (CRC_call np_uint c ws) = long_division p (map (\<lambda>w. bit w j) ws)"
    if j: "j < LENGTH('a)"
  proof -
    have "bit (zero_of np_uint :: 'a word) j = zero_of np_bool"
      by (simp add: np_uint_def np_bool_def)
    then have "map (\<lambda>w. bit w j) (ws @ replicate (CRC_len c) (zero_of np_uint)) =
        map (\<lambda>w. bit w j) ws @ replicate (CRC_len c) (zero_of np_bool)"
      by simp
    with CRC_crc_lane [OF assms(1) j, of "ws @ replicate (CRC_len c) (zero_of np_uint)"]
    have "map (\<lambda>w. bit w j) (CRC_call np_uint c ws) = CRC_call np_bool c (map (\<lambda>w. bit w j) ws)"
      by (simp only: CRC_call_def)
    with b show ?thesis by simp
  qed
  from a b d e f show ?thesis by blast
qed

theorem crc_call_is_long_division_witness:
  "CRC_init 11 = Inr \<lparr>polynomial = 11, pol_bin = [1, 0, 1, 1]\<rparr> \<and>
   check_length 11 = 3 \<and>
   long_division 11 [True, True, False] = [False, False, True] \<and>
   CRC_call np_bool \<lparr>polynomial = 11, pol_bin = [1, 0, 1, 1]\<rparr> [True, True, False] =
     [False, False, True] \<and>
   CRC_call np_uint \<lparr>polynomial = 11, pol_bin = [1, 0, 1, 1]\<rparr> [3, 1, 2 :: 8 word] = [2, 0, 1] \<and>
   long_division 11 [True, False, True] = [True, False, False]"
proof -
  let ?c = "\<lparr>polynomial = 11, pol_bin = [1, 0, 1, 1]\<rparr>"
  have c: "CRC_init 11 = Inr ?c"
    using CRC_init_nonneg [of 11] by (simp add: digits_of.simps)
  have L: "CRC_len ?c = 3" by (simp add: CRC_len_def)
  have b: "CRC_call np_bool ?c [True, True, False] = [False, False, True]"
    by code_simp
  have u: "CRC_call np_uint ?c [3, 1, 2 :: 8 word] = [2, 0, 1]"
    by code_simp
  from crc_call_is_long_division [OF c, of "[True, True, False]" "[3, 1, 2 :: 8 word]" 1]
  have "check_length 11 = 3" "long_division 11 [True, True, False] = [False, False, True]"
    "long_division 11 [True, False, True] = [True, False, False]"
    unfolding b u L by simp_all
  with c b u show ?thesis by simp
qed

section \<open>Header time and the reference epoch\<close>

text \<open>
  Modelled from the spec: the time derivation of the header model (section 4.3).
  The header class of the Mark5B format is not among the sources; its test
  \<open>test_header\<close> is. Times are modified Julian dates, as exact rationals in days.
  The three BCD fields of a header:
\<close>

record time_fields =
  bcd_jday :: int
  bcd_seconds :: int
  bcd_fraction :: int

text \<open>
  Modelled from the spec: a BCD field is read with \<open>bcd_decode\<close> (the scalar path
  of the source), and its error propagates unchanged.
\<close>

definition decode_field :: "int \<Rightarrow> error + int" where
  "decode_field v =
     (case bcd_decode (Scalar v) of
        Inl e \<Rightarrow> Inl e
      | Inr (Scalar r) \<Rightarrow> Inr r
      | Inr (Array rs) \<Rightarrow> Inl (ValueError_BCD v))"

text \<open>
  Modelled from the spec: the date built from the decoded day-of-year,
  seconds-of-day and fraction digits, relative to the start of the epoch;
  \<open>units\<close> is the number of fraction units in a second.
\<close>

definition time_in_epoch :: "rat \<Rightarrow> time_fields \<Rightarrow> error + rat" where
  "time_in_epoch units h =
     (case decode_field (bcd_jday h) of
        Inl e \<Rightarrow> Inl e
      | Inr d \<Rightarrow>
          (case decode_field (bcd_seconds h) of
             Inl e \<Rightarrow> Inl e
           | Inr s \<Rightarrow>
               (case decode_field (bcd_fraction h) of
                  Inl e \<Rightarrow> Inl e
                | Inr f \<Rightarrow> Inr (of_int d + (of_int s + of_int f / units) / 86400))))"

text \<open>
  Modelled from the spec: the disambiguation rule. The candidates are spaced by
  the wrap period of the day counter; the one whose timestamp is closest to the
  reference is chosen, ties resolved toward the earlier epoch (lemma
  \<open>nearest_epoch_closest\<close> shows that the closed form below is that choice).
\<close>

definition nearest_epoch :: "rat \<Rightarrow> rat \<Rightarrow> rat \<Rightarrow> int" where
  "nearest_epoch wrap t rf = \<lceil>(rf - t) / wrap - 1 / 2\<rceil>"

text \<open>Modelled from the spec: the absolute timestamp of a header, given a reference.\<close>

definition header_time :: "rat \<Rightarrow> rat \<Rightarrow> time_fields \<Rightarrow> rat \<Rightarrow> error + rat" where
  "header_time wrap units h rf =
     (case time_in_epoch units h of
        Inl e \<Rightarrow> Inl e
      | Inr t \<Rightarrow> Inr (of_int (nearest_epoch wrap t rf) * wrap + t))"

lemma nearest_epoch_window:
  assumes "0 < wrap"
  shows "- (wrap / 2) \<le> of_int (nearest_epoch wrap t rf) * wrap + t - rf"
    and "of_int (nearest_epoch wrap t rf) * wrap + t - rf < wrap / 2"
proof -
  let ?x = "(rf - t) / wrap - 1 / 2"
  let ?k = "of_int (nearest_epoch wrap t rf) :: rat"
  have "?x \<le> ?k" unfolding nearest_epoch_def by (rule le_of_int_ceiling)
  then have "?x * wrap \<le> ?k * wrap"
    using assms by (simp add: mult_right_mono)
  moreover have "?x * wrap = rf - t - wrap / 2"
    using assms by (simp add: field_simps)
  ultimately show "- (wrap / 2) \<le> ?k * wrap + t - rf" by linarith
  have "?k < ?x + 1" unfolding nearest_epoch_def by linarith
  then have "?k * wrap < (?x + 1) * wrap"
    using assms by (simp add: mult_strict_right_mono)
  moreover have "(?x + 1) * wrap = rf - t + wrap / 2"
    using assms by (simp add: field_simps)
  ultimately show "?k * wrap + t - rf < wrap / 2" by linarith
qed

lemma nearest_epoch_closest:
  assumes "0 < wrap"
  shows "\<bar>of_int (nearest_epoch wrap t rf) * wrap + t - rf\<bar> \<le> \<bar>of_int k' * wrap + t - rf\<bar> \<and>
     (\<bar>of_int k' * wrap + t - rf\<bar> = \<bar>of_int (nearest_epoch wrap t rf) * wrap + t - rf\<bar>
        \<longrightarrow> nearest_epoch wrap t rf \<le> k')"
proof -
  let ?k = "nearest_epoch wrap t rf"
  define d where "d = of_int ?k * wrap + t - rf"
  define e where "e = of_int (k' - ?k) * wrap"
  have lo: "- (wrap / 2) \<le> d" and hi: "d < wrap / 2"
    using nearest_epoch_window [OF assms, of t rf] by (simp_all add: d_def)
  have diff: "of_int k' * wrap + t - rf = d + e"
    by (simp add: d_def e_def algebra_simps)
  consider "k' = ?k" | "?k + 1 \<le> k'" | "k' \<le> ?k - 1" by linarith
  then have "\<bar>d\<bar> \<le> \<bar>d + e\<bar> \<and> (\<bar>d + e\<bar> = \<bar>d\<bar> \<longrightarrow> ?k \<le> k')"
  proof cases
    case 1
    then show ?thesis by (simp add: e_def)
  next
    case 2
    then have "(1::rat) \<le> of_int (k' - ?k)" by simp
    then have "1 * wrap \<le> of_int (k' - ?k) * wrap"
      using assms by (simp only: mult_le_cancel_right_pos)
    then have "wrap \<le> e" by (simp add: e_def)
    with lo hi have "\<bar>d\<bar> \<le> \<bar>d + e\<bar>" by linarith
    with 2 show ?thesis by simp
  next
    case 3
    then have "of_int (k' - ?k) \<le> (- 1::rat)" by simp
    then have "of_int (k' - ?k) * wrap \<le> - 1 * wrap"
      using assms by (simp only: mult_le_cancel_right_pos)
    then have "e \<le> - wrap" by (simp add: e_def)
    with lo hi have "\<bar>d\<bar> < \<bar>d + e\<bar>" by linarith
    then show ?thesis by simp
  qed
  then show ?thesis
    unfolding diff by (simp add: d_def)
qed

text \<open>
  Claim C6, as stated, fails: two references within half the wrap period of each
  other can lie on either side of the midpoint between two candidates. For the
  fields of the sample file (day 821, second 19801) and the Mark5B wrap period of
  1000 days, the references 57221 and 57421 are 200 days apart and resolve to
  timestamps 1000 days apart.
\<close>

theorem header_time_reference_counterexample:
  "\<bar>(57221 :: rat) - 57421\<bar> \<le> 1000 / 2 \<and>
   header_time 1000 10000 \<lparr>bcd_jday = 0x821, bcd_seconds = 0x19801, bcd_fraction = 0\<rparr> 57221 =
     Inr (56821 + 19801 / 86400) \<and>
   header_time 1000 10000 \<lparr>bcd_jday = 0x821, bcd_seconds = 0x19801, bcd_fraction = 0\<rparr> 57421 =
     Inr (57821 + 19801 / 86400)"
proof -
  have d: "decode_field 0x821 = Inr 821" "decode_field 0x19801 = Inr 19801" "decode_field 0 = Inr 0"
    by (simp_all add: decode_field_def decode_scalar has_bad_nibble.simps bcd_unpack_def reread.simps)
  then have t: "time_in_epoch 10000 \<lparr>bcd_jday = 0x821, bcd_seconds = 0x19801, bcd_fraction = 0\<rparr> =
      Inr (821 + 19801 / 86400)"
    by (simp add: time_in_epoch_def)
  have "nearest_epoch 1000 (821 + 19801 / 86400) 57221 = 56"
    "nearest_epoch 1000 (821 + 19801 / 86400) 57421 = 57"
    unfolding nearest_epoch_def by (rule ceiling_unique; simp)+
  with t show ?thesis by (simp add: header_time_def)
qed

text \<open>
  Claim C6, amended. For fixed BCD fields, every reference epoch that lies less
  than half the wrap period from a candidate timestamp \<open>T\<close> decodes to \<open>T\<close>; so any
  two references that are both within half the wrap period of the same candidate
  yield the same timestamp (the test uses the header's time minus and plus 499
  days).
\<close>

theorem header_time_reference:
  assumes "time_in_epoch units h = Inr t" and "0 < wrap"
    and "T = of_int k * wrap + t"
    and "\<bar>r1 - T\<bar> < wrap / 2" and "\<bar>r2 - T\<bar> < wrap / 2"
  shows "header_time wrap units h r1 = Inr T \<and> header_time wrap units h r2 = Inr T"
proof -
  have near: "nearest_epoch wrap t rf = k" if "\<bar>rf - T\<bar> < wrap / 2" for rf
  proof -
    let ?n = "nearest_epoch wrap t rf"
    note w = nearest_epoch_window [OF assms(2), of t rf]
    have "of_int (?n - k) * wrap = (of_int ?n * wrap + t - rf) + (rf - T)"
      using assms(3) by (simp add: algebra_simps)
    with that w have "\<bar>of_int (?n - k) * wrap\<bar> < wrap"
      by linarith
    then have "\<bar>of_int (?n - k) :: rat\<bar> * wrap < 1 * wrap"
      using assms(2) by (simp add: abs_mult)
    then have "\<bar>of_int (?n - k) :: rat\<bar> < 1"
      using assms(2) by (simp only: mult_less_cancel_right_pos)
    then have "\<bar>?n - k\<bar> < 1"
      by (metis of_int_abs of_int_less_1_iff)
    then show ?thesis by simp
  qed
  from near [OF assms(4)] near [OF assms(5)] assms(1,3) show ?thesis
    by (simp add: header_time_def)
qed

theorem header_time_reference_witness:
  "header_time 1000 10000 \<lparr>bcd_jday = 0x821, bcd_seconds = 0x19801, bcd_fraction = 0\<rparr>
     (56821 + 19801 / 86400 - 499) = Inr (56821 + 19801 / 86400) \<and>
   header_time 1000 10000 \<lparr>bcd_jday = 0x821, bcd_seconds = 0x19801, bcd_fraction = 0\<rparr>
     (56821 + 19801 / 86400 + 499) = Inr (56821 + 19801 / 86400)"
proof -
  have d: "decode_field 0x821 = Inr 821" "decode_field 0x19801 = Inr 19801" "decode_field 0 = Inr 0"
    by (simp_all add: decode_field_def decode_scalar has_bad_nibble.simps bcd_unpack_def reread.simps)
  then have t: "time_in_epoch 10000 \<lparr>bcd_jday = 0x821, bcd_seconds = 0x19801, bcd_fraction = 0\<rparr> =
      Inr (821 + 19801 / 86400)"
    by (simp add: time_in_epoch_def)
  from header_time_reference [OF t, of 1000 "56821 + 19801 / 86400" 56
      "56821 + 19801 / 86400 - 499" "56821 + 19801 / 86400 + 499"]
  show ?thesis by simp
qed

section \<open>Stream cursor: seek and tell\<close>

text \<open>
  Modelled from the spec: the stream reader's state and its operations \<open>open\<close>,
  \<open>tell\<close> and \<open>seek\<close> (section 4.6). The stream classes are not among the sources;
  the test \<open>test_filestreamer\<close> is. Times are exact rationals in seconds, the
  sample rate is in samples per second, the cursor is a sample offset from the start.
\<close>

record stream_state =
  start_time :: rat
  sample_rate :: rat
  cursor :: int

text \<open>Modelled from the spec: a position is a sample count or an absolute timestamp.\<close>

datatype position = Sample_count int | Timestamp rat

text \<open>Modelled from the spec: the unit \<open>tell\<close> is asked for.\<close>

datatype tell_unit = In_samples | In_time

text \<open>Modelled from the spec: opening for reading sets the cursor to zero.\<close>

definition open_read :: "rat \<Rightarrow> rat \<Rightarrow> stream_state" where
  "open_read time0 rate = \<lparr>start_time = time0, sample_rate = rate, cursor = 0\<rparr>"

text \<open>
  Modelled from the spec: \<open>tell\<close> returns the cursor as a sample count, or as the
  timestamp start time + cursor / sample rate.
\<close>

definition tell :: "tell_unit \<Rightarrow> stream_state \<Rightarrow> position" where
  "tell u s =
     (case u of
        In_samples \<Rightarrow> Sample_count (cursor s)
      | In_time \<Rightarrow> Timestamp (start_time s + of_int (cursor s) / sample_rate s))"

text \<open>
  Modelled from the spec: \<open>seek\<close> sets the cursor to a sample count, or to
  (target - start time) * sample rate rounded to the nearest integer sample; it
  reads no data.
\<close>

definition seek :: "position \<Rightarrow> stream_state \<Rightarrow> stream_state" where
  "seek target s =
     (case target of
        Sample_count n \<Rightarrow> s\<lparr>cursor := n\<rparr>
      | Timestamp t \<Rightarrow> s\<lparr>cursor := round ((t - start_time s) * sample_rate s)\<rparr>)"

text \<open>
  Claim C9. On a stream opened for reading, with a positive sample rate: \<open>seek\<close> to
  a sample count \<open>n\<close> followed by \<open>tell\<close> returns \<open>n\<close>; \<open>tell\<close> in the time unit
  returns start time + cursor / sample rate; \<open>seek\<close> to a timestamp sets the cursor
  to (target - start time) * sample rate, rounded to the nearest integer; and
  \<open>tell\<close> in the time unit then differs from the target by at most half a sample
  period, hence by less than one.
\<close>

theorem seek_tell_consistent:
  assumes "0 < sample_rate s"
  shows "tell In_samples (seek (Sample_count n) s) = Sample_count n \<and>
         tell In_time s = Timestamp (start_time s + of_int (cursor s) / sample_rate s) \<and>
         cursor (seek (Timestamp t) s) = round ((t - start_time s) * sample_rate s) \<and>
         (\<exists>t'. tell In_time (seek (Timestamp t) s) = Timestamp t' \<and>
               \<bar>t' - t\<bar> \<le> 1 / (2 * sample_rate s) \<and> \<bar>t' - t\<bar> < 1 / sample_rate s)"
proof -
  let ?r = "sample_rate s"
  let ?x = "(t - start_time s) * ?r"
  let ?t' = "start_time s + of_int (round ?x) / ?r"
  have r: "\<bar>of_int (round ?x) - ?x\<bar> \<le> 1 / 2"
    by (rule of_int_round_abs_le)
  have "?t' - t = (of_int (round ?x) - ?x) / ?r"
    using assms by (simp add: field_simps)
  then have "\<bar>?t' - t\<bar> = \<bar>of_int (round ?x) - ?x\<bar> / ?r"
    using assms by (simp add: abs_divide del: of_int_diff)
  also have "\<dots> \<le> (1 / 2) / ?r"
    using r assms by (simp only: divide_right_mono less_imp_le)
  finally have le: "\<bar>?t' - t\<bar> \<le> 1 / (2 * ?r)" by simp
  have "1 / (2 * ?r) < 1 / ?r"
    using assms by (simp add: field_simps)
  with le have lt: "\<bar>?t' - t\<bar> < 1 / ?r" by linarith
  have "tell In_time (seek (Timestamp t) s) = Timestamp ?t'"
    by (simp add: tell_def seek_def)
  with le lt show ?thesis
    by (simp add: tell_def seek_def)
qed

theorem seek_tell_consistent_witness:
  "tell In_samples (seek (Sample_count 10000) (open_read 0 32000000)) = Sample_count 10000 \<and>
   cursor (seek (Timestamp (1000 / 32000000 + 1 / 100000000)) (open_read 0 32000000)) = 1000 \<and>
   tell In_time (seek (Timestamp (1000 / 32000000 + 1 / 100000000)) (open_read 0 32000000)) =
     Timestamp (1000 / 32000000)"
proof -
  have r: "round (25008 / 25 :: rat) = 1000"
    by code_simp
  from seek_tell_consistent [of "open_read 0 32000000" 10000 "1000 / 32000000 + 1 / 100000000"]
  have "tell In_samples (seek (Sample_count 10000) (open_read 0 32000000)) = Sample_count 10000"
    "cursor (seek (Timestamp (1000 / 32000000 + 1 / 100000000)) (open_read 0 32000000)) = 1000"
    by (simp_all add: open_read_def r)
  moreover have "tell In_time (seek (Timestamp (1000 / 32000000 + 1 / 100000000)) (open_read 0 32000000)) =
      Timestamp (1000 / 32000000)"
    by (simp add: tell_def seek_def open_read_def r)
  ultimately show ?thesis by simp
qed

section \<open>Payload codec and frames\<close>

text \<open>
  Modelled from the spec: the payload codec (section 4.4) and the frame (section
  4.5). The payload and frame classes of the Mark5B format are not among the
  sources; their tests \<open>test_decoding\<close>, \<open>test_payload\<close> and \<open>test_frame\<close> are.
  Sample values are exact rationals; \<open>opt\<close> is the optimal 2-bit reconstruction
  magnitude, a constant of a module that is not among the sources either, taken as
  a parameter. Raw words are 32-bit unsigned integers, as natural numbers.

  Modelled from the spec: \<open>pack b\<close> puts digits of base \<open>b\<close> into one number,
  least significant first (codes into a byte, bytes into a word), and
  \<open>unpack b n\<close> reads \<open>n\<close> such digits back.
\<close>

fun pack :: "nat \<Rightarrow> nat list \<Rightarrow> nat" where
  "pack b [] = 0"
| "pack b (c # cs) = c + b * pack b cs"

text \<open>Modelled from the spec: the \<open>n\<close> digits of base \<open>b\<close> of a number, least significant first.\<close>

fun unpack :: "nat \<Rightarrow> nat \<Rightarrow> nat \<Rightarrow> nat list" where
  "unpack b 0 v = []"
| "unpack b (Suc n) v = v mod b # unpack b n (v div b)"

text \<open>Modelled from the spec: cutting a flat sequence into groups of \<open>n\<close> (reshape).\<close>

function chunks :: "nat \<Rightarrow> 'a list \<Rightarrow> 'a list list" where
  "chunks n xs = (if n = 0 \<or> xs = [] then [] else take n xs # chunks n (drop n xs))"
  by pat_completeness auto
termination
  by (relation "measure (\<lambda>(n, xs). length xs)") auto

declare chunks.simps [simp del]

text \<open>
  Modelled from the spec: the levels of the two alphabets. The assignment of codes
  to levels is the one \<open>test_decoding\<close> checks: 1-bit code 0 is \<open>-1\<close> and code 1
  is \<open>+1\<close>; 2-bit codes 0, 1, 2, 3 are \<open>-OPT\<close>, \<open>+1\<close>, \<open>-1\<close>, \<open>+OPT\<close>.
\<close>

definition level_1bit :: "nat \<Rightarrow> rat" where
  "level_1bit c = (if c = 0 then - 1 else 1)"

text \<open>Modelled from the spec: the four levels of the 2-bit alphabet, by code.\<close>

definition level_2bit :: "rat \<Rightarrow> nat \<Rightarrow> rat" where
  "level_2bit opt c = (if c = 0 then - opt else if c = 1 then 1 else if c = 2 then - 1 else opt)"

text \<open>
  Modelled from the spec: the two lookup tables, one entry per byte value, with the
  least significant code first (as \<open>test_decoding\<close> checks for the 1-bit table).
\<close>

definition lut1bit :: "rat list list" where
  "lut1bit = map (\<lambda>byte. map level_1bit (unpack 2 8 byte)) [0 ..< 256]"

text \<open>Modelled from the spec: the 2-bit table, four levels per byte value.\<close>

definition lut2bit :: "rat \<Rightarrow> rat list list" where
  "lut2bit opt = map (\<lambda>byte. map (level_2bit opt) (unpack 4 4 byte)) [0 ..< 256]"

text \<open>Modelled from the spec: the table and the alphabet for the declared bits per sample.\<close>

definition lut :: "rat \<Rightarrow> nat \<Rightarrow> rat list list" where
  "lut opt bps = (if bps = 1 then lut1bit else lut2bit opt)"

text \<open>Modelled from the spec: the level of a code at the declared bits per sample.\<close>

definition level :: "rat \<Rightarrow> nat \<Rightarrow> nat \<Rightarrow> rat" where
  "level opt bps c = (if bps = 1 then level_1bit c else level_2bit opt c)"

text \<open>Modelled from the spec: a payload is raw words with its bits per sample and channel count.\<close>

record payload =
  words :: "nat list"
  bps :: nat
  nchan :: nat

text \<open>
  Modelled from the spec: the error of encoding a sample type the format cannot
  represent, and the two kinds of sample arrays, rows of channels.
\<close>

datatype payload_error = UnsupportedSampleType

datatype sample_array = Real_samples "rat list list" | Complex_samples "(rat \<times> rat) list list"

text \<open>
  Modelled from the spec: decode expands each byte of each word through the table
  and reshapes the levels into rows of \<open>nchan\<close> channels.
\<close>

definition payload_decode :: "rat \<Rightarrow> payload \<Rightarrow> rat list list" where
  "payload_decode opt p =
     chunks (nchan p)
       (concat (map (\<lambda>byte. lut opt (bps p) ! byte) (concat (map (unpack 256 4) (words p)))))"

text \<open>
  Modelled from the spec: inverse quantization maps a value to the nearest code
  point (the lower code on a tie).
\<close>

definition nearest_code :: "(nat \<Rightarrow> rat) \<Rightarrow> nat \<Rightarrow> rat \<Rightarrow> nat" where
  "nearest_code lv n x =
     fold (\<lambda>c best. if \<bar>x - lv c\<bar> < \<bar>x - lv best\<bar> then c else best) [1 ..< n] 0"

text \<open>
  Modelled from the spec: encode quantizes every sample, packs the codes into bytes
  and the bytes into words; a complex sample array is refused.
\<close>

definition payload_encode :: "rat \<Rightarrow> sample_array \<Rightarrow> nat \<Rightarrow> payload_error + payload" where
  "payload_encode opt x b =
     (case x of
        Complex_samples rows \<Rightarrow> Inl UnsupportedSampleType
      | Real_samples rows \<Rightarrow>
          Inr \<lparr>words = map (pack 256) (chunks 4 (map (pack (2 ^ b)) (chunks (8 div b)
                   (map (nearest_code (level opt b) (2 ^ b)) (concat rows))))),
               bps = b,
               nchan = (case rows of [] \<Rightarrow> 0 | r # rs \<Rightarrow> length r)\<rparr>)"

lemma unpack_pack:
  "length cs = n \<Longrightarrow> \<forall>c \<in> set cs. c < b \<Longrightarrow> unpack b n (pack b cs) = cs"
proof (induction cs arbitrary: n)
  case Nil
  then show ?case by simp
next
  case (Cons c cs)
  then obtain n' where n: "n = Suc n'" "length cs = n'" by (cases n) auto
  from Cons.prems have "c < b" by simp
  then have "(c + b * pack b cs) mod b = c" "(c + b * pack b cs) div b = pack b cs"
    by simp_all
  with Cons n show ?case by simp
qed

lemma pack_bound: "\<forall>c \<in> set cs. c < b \<Longrightarrow> pack b cs < b ^ length cs"
proof (induction cs)
  case Nil
  show ?case by simp
next
  case (Cons c cs)
  then have "pack b cs + 1 \<le> b ^ length cs" "c < b" by simp_all
  then have "b * (pack b cs + 1) \<le> b * b ^ length cs" by (simp only: mult_le_mono2)
  with \<open>c < b\<close> show ?case by (simp add: algebra_simps)
qed

lemma concat_chunks: "0 < n \<Longrightarrow> concat (chunks n xs) = xs"
proof (induction n xs rule: chunks.induct)
  case (1 n xs)
  then show ?case
    by (subst chunks.simps) (cases "xs = []"; simp)
qed

lemma chunks_lengths:
  "0 < n \<Longrightarrow> n dvd length xs \<Longrightarrow> c \<in> set (chunks n xs) \<Longrightarrow> length c = n"
proof (induction n xs rule: chunks.induct)
  case (1 n xs)
  show ?case
  proof (cases "xs = []")
    case True
    with "1.prems" show ?thesis by (subst (asm) chunks.simps) simp
  next
    case False
    with "1.prems" have le: "n \<le> length xs" by (auto dest: dvd_imp_le)
    with "1.prems" have dv: "n dvd length (drop n xs)" by (simp add: dvd_diff_nat)
    from "1.prems"(3) False "1.prems"(1)
    have "c = take n xs \<or> c \<in> set (chunks n (drop n xs))"
      by (subst (asm) chunks.simps) simp
    then show ?thesis
      using le "1.IH" "1.prems"(1) dv False by auto
  qed
qed

lemma length_chunks:
  "0 < n \<Longrightarrow> n dvd length xs \<Longrightarrow> length (chunks n xs) = length xs div n"
proof (induction n xs rule: chunks.induct)
  case (1 n xs)
  show ?case
  proof (cases "xs = []")
    case True
    then show ?thesis by (subst chunks.simps) simp
  next
    case False
    with "1.prems" have le: "n \<le> length xs" by (auto dest: dvd_imp_le)
    with "1.prems" have dv: "n dvd length (drop n xs)" by (simp add: dvd_diff_nat)
    have "length (chunks n (drop n xs)) = length (drop n xs) div n"
      using "1.IH" "1.prems"(1) dv False by simp
    moreover have "length xs div n = Suc ((length xs - n) div n)"
      using le "1.prems"(1) by (simp add: le_div_geq)
    ultimately show ?thesis
      using False "1.prems"(1) by (subst chunks.simps) simp
  qed
qed

lemma chunks_concat:
  "0 < n \<Longrightarrow> \<forall>r \<in> set rows. length r = n \<Longrightarrow> chunks n (concat rows) = rows"
proof (induction rows)
  case Nil
  show ?case by (subst chunks.simps) simp
next
  case (Cons r rows)
  then have "r \<noteq> []" "length r = n" by auto
  with Cons show ?case
    by (subst chunks.simps) simp
qed

lemma unpack_pack_chunks:
  assumes "0 < n" and "n dvd length xs" and "\<forall>c \<in> set xs. c < b"
  shows "concat (map (unpack b n) (map (pack b) (chunks n xs))) = xs"
proof -
  have "unpack b n (pack b c) = c" if "c \<in> set (chunks n xs)" for c
  proof -
    from that have "length c = n" by (rule chunks_lengths [OF assms(1,2)])
    moreover have "set c \<subseteq> set xs"
      using that concat_chunks [OF assms(1), of xs] by (metis Sup_upper image_eqI set_concat)
    ultimately show ?thesis using assms(3) by (intro unpack_pack) auto
  qed
  then have "map (unpack b n) (map (pack b) (chunks n xs)) = chunks n xs"
    by (simp add: map_idI)
  with concat_chunks [OF assms(1)] show ?thesis by simp
qed


text \<open>
  Modelled from the spec: a frame is a header, a payload and a validity flag. Its
  data are all zero, of the payload's shape, when the flag is false. A frame made
  from samples with the flag false carries the sentinel word in every payload
  word.
\<close>

record 'h frame =
  frame_header :: 'h
  frame_payload :: payload
  frame_valid :: bool

text \<open>Modelled from the spec: the fixed word pattern of an invalid Mark5B payload.\<close>

definition sentinel_word :: nat where
  "sentinel_word = 0x11223344"

text \<open>
  Modelled from the spec: the declared shape (samples, channels) of a payload;
  its bit count is samples times channels times bits per sample.
\<close>

definition payload_shape :: "payload \<Rightarrow> nat \<times> nat" where
  "payload_shape p = (length (words p) * 32 div (bps p * nchan p), nchan p)"

text \<open>
  Modelled from the spec: the \<open>data\<close> property; zeros of the declared shape without
  decoding when the frame is invalid, the decoded payload otherwise.
\<close>

definition frame_data :: "rat \<Rightarrow> 'h frame \<Rightarrow> rat list list" where
  "frame_data opt f =
     (if frame_valid f then payload_decode opt (frame_payload f)
      else replicate (fst (payload_shape (frame_payload f)))
             (replicate (snd (payload_shape (frame_payload f))) 0))"

text \<open>
  Modelled from the spec: \<open>from_samples\<close>; the payload is encoded from the samples,
  and replaced word by word with the sentinel when the frame is to be invalid.
\<close>

definition frame_from_samples ::
    "rat \<Rightarrow> sample_array \<Rightarrow> 'h \<Rightarrow> nat \<Rightarrow> bool \<Rightarrow> payload_error + 'h frame" where
  "frame_from_samples opt x h b v =
     (case payload_encode opt x b of
        Inl e \<Rightarrow> Inl e
      | Inr p \<Rightarrow>
          Inr \<lparr>frame_header = h,
               frame_payload = (if v then p else p\<lparr>words := map (\<lambda>w. sentinel_word) (words p)\<rparr>),
               frame_valid = v\<rparr>)"

lemma nearest_code_fold:
  fixes lv :: "nat \<Rightarrow> rat"
  assumes "x = lv c0" and "\<forall>c < n. c \<noteq> c0 \<longrightarrow> lv c \<noteq> lv c0" and "c0 < n"
    and "best < a" and "a \<le> n" and "best = c0 \<or> a \<le> c0"
  shows "fold (\<lambda>c best. if \<bar>x - lv c\<bar> < \<bar>x - lv best\<bar> then c else best) [a ..< n] best = c0"
  using assms(4,5,6)
proof (induction "n - a" arbitrary: a best)
  case 0
  then show ?case using assms(3) by auto
next
  case (Suc d)
  then have a: "a < n" by simp
  then have upt: "[a ..< n] = a # [Suc a ..< n]" by (simp add: upt_rec)
  let ?best' = "if \<bar>x - lv a\<bar> < \<bar>x - lv best\<bar> then a else best"
  have d: "d = n - Suc a" using Suc.hyps(2) by simp
  have lt: "?best' < Suc a" using Suc.prems(1) by simp
  have "?best' = c0 \<or> Suc a \<le> c0"
  proof (cases "best = c0")
    case True
    then show ?thesis using assms(1) by simp
  next
    case False
    with Suc.prems(3) have ac: "a \<le> c0" by simp
    show ?thesis
    proof (cases "a = c0")
      case True
      from False Suc.prems(1) a have "lv best \<noteq> lv c0"
        using assms(2) by simp
      with True assms(1) show ?thesis by simp
    next
      case False
      with ac show ?thesis by simp
    qed
  qed
  with Suc.hyps(1) [OF d lt] a have "fold (\<lambda>c best. if \<bar>x - lv c\<bar> < \<bar>x - lv best\<bar> then c else best)
      [Suc a ..< n] ?best' = c0"
    by simp
  then show ?case by (simp add: upt)
qed

lemma nearest_code_exact:
  assumes "c0 < n" and "\<forall>c < n. c \<noteq> c0 \<longrightarrow> lv c \<noteq> lv c0"
  shows "nearest_code lv n (lv c0) = c0"
proof (cases "c0 = 0")
  case True
  with assms show ?thesis
    unfolding nearest_code_def
    by (intro nearest_code_fold [where ?c0.0 = c0]) auto
next
  case False
  with assms show ?thesis
    unfolding nearest_code_def
    by (intro nearest_code_fold [where ?c0.0 = c0]) auto
qed

lemma level_distinct:
  assumes "b = 1 \<or> b = 2" and "1 < opt" and "c0 < 2 ^ b" and "c < 2 ^ b" and "c \<noteq> c0"
  shows "level opt b c \<noteq> level opt b c0"
proof -
  from assms(1) show ?thesis
  proof
    assume b: "b = 1"
    with assms(3,4) have "c < 2" "c0 < 2" by simp_all
    with assms(5) b show ?thesis by (auto simp: level_def level_1bit_def)
  next
    assume b: "b = 2"
    with assms(3,4) have "c < 4" "c0 < 4" by simp_all
    with assms(2,5) b show ?thesis
      by (auto simp: level_def level_2bit_def)
  qed
qed

lemma nearest_code_level:
  assumes "b = 1 \<or> b = 2" and "1 < opt" and "c0 < 2 ^ b"
  shows "nearest_code (level opt b) (2 ^ b) (level opt b c0) = c0"
proof (rule nearest_code_exact [OF assms(3)])
  show "\<forall>c < 2 ^ b. c \<noteq> c0 \<longrightarrow> level opt b c \<noteq> level opt b c0"
    using level_distinct [OF assms] by blast
qed


text \<open>Modelled from the spec: a value lies in the quantization alphabet of \<open>b\<close> bits.\<close>

definition in_alphabet :: "rat \<Rightarrow> nat \<Rightarrow> rat \<Rightarrow> bool" where
  "in_alphabet opt b v = list_ex (\<lambda>c. v = level opt b c) [0 ..< 2 ^ b]"

lemma lut_nth:
  assumes "b = 1 \<or> b = 2" and "byte < 256"
  shows "lut opt b ! byte = map (level opt b) (unpack (2 ^ b) (8 div b) byte)"
  using assms
  by (auto simp: lut_def lut1bit_def lut2bit_def level_def [abs_def] simp del: upt_Suc unpack.simps)

lemma payload_decode_encode:
  assumes b: "b = 1 \<or> b = 2" and opt: "1 < opt" and n: "0 < n"
    and rect: "\<forall>r \<in> set rows. length r = n"
    and alph: "\<forall>v \<in> set (concat rows). in_alphabet opt b v"
    and whole: "(32 div b) dvd length (concat rows)"
    and enc: "payload_encode opt (Real_samples rows) b = Inr p"
  shows "payload_decode opt p = rows"
proof -
  let ?B = "2 ^ b :: nat" and ?spb = "8 div b"
  let ?flat = "concat rows"
  let ?codes = "map (nearest_code (level opt b) ?B) ?flat"
  let ?bytes = "map (pack ?B) (chunks ?spb ?codes)"
  have spb: "0 < ?spb" "?spb * 4 = 32 div b" "?B ^ ?spb = 256"
    using b by auto
  have code: "nearest_code (level opt b) ?B v < ?B \<and>
      level opt b (nearest_code (level opt b) ?B v) = v" if "v \<in> set ?flat" for v
  proof -
    from alph that have "in_alphabet opt b v" by blast
    then obtain c where "c < ?B" "v = level opt b c"
      by (auto simp: in_alphabet_def list_ex_iff)
    with nearest_code_level [OF b opt, of c] show ?thesis by simp
  qed
  then have codes_lt: "\<forall>c \<in> set ?codes. c < ?B" by auto
  have levels: "map (level opt b) ?codes = ?flat"
  proof -
    have "map (\<lambda>v. level opt b (nearest_code (level opt b) ?B v)) ?flat = ?flat"
      by (rule map_idI) (use code in blast)
    then show ?thesis by (simp only: map_map comp_def)
  qed
  have dv: "?spb dvd length ?codes"
    using whole spb(2) by (metis dvd_mult_left length_map)
  have bytes_lt: "\<forall>y \<in> set ?bytes. y < 256"
  proof
    fix y assume "y \<in> set ?bytes"
    then obtain c where c: "c \<in> set (chunks ?spb ?codes)" "y = pack ?B c" by auto
    then have len: "length c = ?spb" by (intro chunks_lengths [OF spb(1) dv])
    have "set c \<subseteq> set ?codes"
      using c(1) concat_chunks [OF spb(1), of ?codes] by (metis Sup_upper image_eqI set_concat)
    with codes_lt have "pack ?B c < ?B ^ length c" by (intro pack_bound) auto
    with len spb(3) c(2) show "y < 256" by simp
  qed
  have "length ?bytes = length ?codes div ?spb"
    using spb(1) dv by (simp add: length_chunks)
  moreover have "?spb * 4 dvd length ?codes" using whole spb(2) by simp
  ultimately have dv4: "4 dvd length ?bytes"
    using spb(1) by (metis dvd_div_iff_mult dvd_mult_div_cancel mult.commute dv less_numeral_extra(3))
  have w: "words p = map (pack 256) (chunks 4 ?bytes)" and pb: "bps p = b"
    and pn: "nchan p = (case rows of [] \<Rightarrow> 0 | r # rs \<Rightarrow> length r)"
    using enc by (auto simp: payload_encode_def)
  have f1: "concat (map (unpack 256 4) (words p)) = ?bytes"
    unfolding w using bytes_lt dv4 by (intro unpack_pack_chunks) simp_all
  have f2: "map (\<lambda>byte. lut opt b ! byte) ?bytes =
      map (\<lambda>byte. map (level opt b) (unpack ?B ?spb byte)) ?bytes"
    using bytes_lt lut_nth [OF b] by (intro map_cong) auto
  have f3: "concat (map (\<lambda>byte. map (level opt b) (unpack ?B ?spb byte)) ?bytes) =
      map (level opt b) (concat (map (unpack ?B ?spb) ?bytes))"
    by (simp add: map_concat comp_def)
  have f4: "concat (map (unpack ?B ?spb) ?bytes) = ?codes"
    using spb(1) dv codes_lt by (intro unpack_pack_chunks) simp_all
  have flat: "concat (map (\<lambda>byte. lut opt (bps p) ! byte)
      (concat (map (unpack 256 4) (words p)))) = ?flat"
    by (simp only: pb f1 f2 f3 f4 levels)
  have "chunks (nchan p) ?flat = rows"
  proof (cases rows)
    case Nil
    then show ?thesis by (simp add: chunks.simps)
  next
    case (Cons r rs)
    with rect pn have "nchan p = n" by simp
    with n rect show ?thesis by (simp add: chunks_concat)
  qed
  with flat show ?thesis by (simp add: payload_decode_def)
qed


text \<open>
  Claim C7. For 1 or 2 bits per sample and every sample array whose values all lie
  in the quantization alphabet (rows of \<open>n\<close> channels, filling whole 32-bit words,
  as the payload's geometry requires), encoding succeeds and decoding the encoded
  payload returns the array exactly.
\<close>

theorem payload_roundtrip:
  assumes "b = 1 \<or> b = 2" and "1 < opt" and "0 < n"
    and "list_all (\<lambda>r. length r = n \<and> list_all (in_alphabet opt b) r) rows"
    and "(32 div b) dvd (length rows * n)"
  shows "\<exists>p. payload_encode opt (Real_samples rows) b = Inr p \<and> payload_decode opt p = rows"
proof -
  from assms(4) have rect: "\<forall>r \<in> set rows. length r = n"
    and alph: "\<forall>v \<in> set (concat rows). in_alphabet opt b v"
    by (auto simp: list_all_iff)
  from rect have "length (concat rows) = length rows * n"
    by (induction rows) simp_all
  with assms(5) have whole: "(32 div b) dvd length (concat rows)" by simp
  obtain p where p: "payload_encode opt (Real_samples rows) b = Inr p"
    by (simp add: payload_encode_def)
  with payload_decode_encode [OF assms(1,2,3) rect alph whole] show ?thesis by blast
qed

theorem payload_roundtrip_witness:
  "\<exists>p. payload_encode (33359 / 10000)
         (Real_samples
            [[- (33359 / 10000), - 1, 1, - 1, 33359 / 10000, - (33359 / 10000), - (33359 / 10000), 33359 / 10000],
             [- (33359 / 10000), 33359 / 10000, - 1, 33359 / 10000, - 1, - 1, - 1, 1]]) 2 = Inr p \<and>
       payload_decode (33359 / 10000) p =
         [[- (33359 / 10000), - 1, 1, - 1, 33359 / 10000, - (33359 / 10000), - (33359 / 10000), 33359 / 10000],
          [- (33359 / 10000), 33359 / 10000, - 1, 33359 / 10000, - 1, - 1, - 1, 1]]"
proof -
  have u: "[0 ..< 4] = [0, 1, 2, 3]" by (simp add: upt_rec)
  have a: "in_alphabet (33359 / 10000) 2 (- (33359 / 10000))" "in_alphabet (33359 / 10000) 2 (- 1)"
    "in_alphabet (33359 / 10000) 2 1" "in_alphabet (33359 / 10000) 2 (33359 / 10000)"
    by (simp_all add: in_alphabet_def level_def level_2bit_def u)
  show ?thesis
    by (rule payload_roundtrip [where n = 8]) (simp_all add: a)
qed

text \<open>
  Claim C8. The data of a frame whose validity flag is false are all zero, of the
  shape of its payload, whatever the payload words are; and a frame constructed
  from a sample array with the flag false is invalid, has the sentinel
  \<open>0x11223344\<close> in every payload word, and reads as zeros.
\<close>

theorem invalid_frame:
  "(\<not> frame_valid f \<longrightarrow>
      frame_data opt f =
        replicate (fst (payload_shape (frame_payload f)))
          (replicate (snd (payload_shape (frame_payload f))) 0)) \<and>
   (frame_from_samples opt x h b False = Inr g \<longrightarrow>
      \<not> frame_valid g \<and>
      list_all (\<lambda>w. w = 0x11223344) (words (frame_payload g)) \<and>
      list_all (list_all (\<lambda>v. v = 0)) (frame_data opt g))"
proof (intro conjI impI)
  assume "\<not> frame_valid f"
  then show "frame_data opt f =
      replicate (fst (payload_shape (frame_payload f)))
        (replicate (snd (payload_shape (frame_payload f))) 0)"
    by (simp add: frame_data_def)
next
  assume g: "frame_from_samples opt x h b False = Inr g"
  then obtain p where p: "payload_encode opt x b = Inr p"
    and gp: "frame_payload g = p\<lparr>words := map (\<lambda>w. sentinel_word) (words p)\<rparr>"
    and gv: "frame_valid g = False"
    by (auto simp: frame_from_samples_def split: sum.splits)
  from gv show "\<not> frame_valid g" by simp
  from gp show "list_all (\<lambda>w. w = 0x11223344) (words (frame_payload g))"
    by (simp add: list_all_iff sentinel_word_def)
  from gv show "list_all (list_all (\<lambda>v. v = 0)) (frame_data opt g)"
    by (simp add: frame_data_def list_all_iff)
qed

theorem invalid_frame_witness:
  "frame_data (33359 / 10000)
     \<lparr>frame_header = (), frame_payload = \<lparr>words = [1793901464], bps = 2, nchan = 8\<rparr>,
      frame_valid = False\<rparr> = [replicate 8 0, replicate 8 0] \<and>
   (\<exists>g. frame_from_samples (33359 / 10000) (Real_samples [[1, - 1, 1, - 1]]) () 2 False = Inr g \<and>
        \<not> frame_valid g \<and> words (frame_payload g) = [0x11223344])"
proof -
  let ?f = "\<lparr>frame_header = (), frame_payload = \<lparr>words = [1793901464], bps = 2, nchan = 8\<rparr>,
      frame_valid = False\<rparr>"
  obtain g :: "unit frame"
    where g: "frame_from_samples (33359 / 10000) (Real_samples [[1, - 1, 1, - 1]]) () 2 False = Inr g"
      and w: "length (words (frame_payload g)) = 1"
    by (simp add: frame_from_samples_def payload_encode_def chunks.simps)
  from invalid_frame [of ?f "33359 / 10000" "Real_samples [[1, - 1, 1, - 1]]" "()" 2 g] g
  have "frame_data (33359 / 10000) ?f = [replicate 8 0, replicate 8 0]"
    and "\<not> frame_valid g" and "list_all (\<lambda>w. w = 0x11223344) (words (frame_payload g))"
    by (simp_all add: payload_shape_def numeral_2_eq_2)
  with g w show ?thesis
    by (cases "words (frame_payload g)") auto
qed

end
